theory Spec2Isabelle
  imports Complex_Main "HOL-Library.Word"
begin

section \<open>Raster images\<close>

text \<open>
  A pixel of an RGBA image: four 8-bit bands, alpha last. An image is its size
  (width, height) and the pixel stored at every coordinate; only coordinates inside
  the size are part of the image, which is what \<open>getpixel\<close> reads.
\<close>

type_synonym rgba = "8 word \<times> 8 word \<times> 8 word \<times> 8 word"

record image =
  im_size :: "nat \<times> nat"
  im_px :: "nat \<times> nat \<Rightarrow> rgba"

definition alpha :: "rgba \<Rightarrow> 8 word" where
  "alpha p = snd (snd (snd p))"

definition getpixel :: "image \<Rightarrow> nat \<times> nat \<Rightarrow> rgba option" where
  "getpixel img xy =
     (if fst xy < fst (im_size img) \<and> snd xy < snd (im_size img)
      then Some (im_px img xy) else None)"

text \<open>The image of size \<open>sz\<close> whose every pixel is \<open>color\<close>.\<close>

definition filled :: "nat \<times> nat \<Rightarrow> rgba \<Rightarrow> image" where
  "filled sz color = \<lparr>im_size = sz, im_px = (\<lambda>_. color)\<rparr>"

text \<open>
  \<^verbatim>\<open>canvas.paste(src, (x, y))\<close> with no mask: the box has the size of \<open>src\<close>, every
  canvas pixel inside the box takes the source pixel (all four bands), every other
  canvas pixel stays; the part of the box outside the canvas is dropped.
\<close>

definition paste :: "image \<Rightarrow> image \<Rightarrow> nat \<times> nat \<Rightarrow> image" where
  "paste canvas src xy =
     canvas\<lparr>im_px := (\<lambda>(px, py).
        if fst xy \<le> px \<and> px < fst xy + fst (im_size src) \<and> px < fst (im_size canvas) \<and>
           snd xy \<le> py \<and> py < snd xy + snd (im_size src) \<and> py < snd (im_size canvas)
        then im_px src (px - fst xy, py - snd xy)
        else im_px canvas (px, py))\<rparr>"

section \<open>Errors\<close>

text \<open>The exceptions the program can meet; the string is the message of the exception.\<close>

datatype error =
    EOFError
  | ZeroDivisionError
  | OverflowError
  | MemoryError
  | DecompressionBombError
  | FileNotFoundError string
  | FileExistsError string
  | NotADirectoryError string
  | IsADirectoryError string
  | UnidentifiedImageError string

section \<open>Allocating an image\<close>

text \<open>
  \<^verbatim>\<open>Image.new('RGBA', size, color)\<close> allocates the pixel buffer and fills it; it raises
  \<^verbatim>\<open>MemoryError\<close> when the buffer cannot be had. How much can be had depends on the
  machine. The model lets every image of up to \<open>2 ^ 48\<close> pixels (a petabyte of RGBA)
  through, which is more than any machine holds: every run of the program that gets
  its canvas is a run of the model, and the model may get a canvas where a machine
  does not.
\<close>

definition max_pixels :: nat where
  "max_pixels = 2 ^ 48"

definition Image_new :: "nat \<times> nat \<Rightarrow> rgba \<Rightarrow> error + image" where
  "Image_new sz color =
     (if fst sz * snd sz \<le> max_pixels then Inr (filled sz color) else Inl MemoryError)"

section \<open>An opened animation\<close>

text \<open>
  The object \<^verbatim>\<open>Image.open\<close> returns: the size read from the file, the frames that
  \<^verbatim>\<open>seek\<close> reaches counting from index 0, in order (each as \<^verbatim>\<open>convert('RGBA')\<close> renders
  it), and the frame cursor. \<^verbatim>\<open>seek(n)\<close> moves the cursor to frame \<open>n\<close> and raises
  \<^verbatim>\<open>EOFError\<close> when there is no such frame.
\<close>

record animation =
  an_size :: "nat \<times> nat"
  an_frames :: "image list"
  an_pos :: nat

definition seek :: "animation \<Rightarrow> nat \<Rightarrow> error + animation" where
  "seek gif n = (if n < length (an_frames gif) then Inr (gif\<lparr>an_pos := n\<rparr>) else Inl EOFError)"

text \<open>\<^verbatim>\<open>gif.convert('RGBA')\<close>: the frame under the cursor.\<close>

definition convert_RGBA :: "animation \<Rightarrow> image" where
  "convert_RGBA gif = an_frames gif ! an_pos gif"

subsection \<open>Counting the frames (lines 34-40)\<close>

text \<open>
  \<^verbatim>\<open>frames = 0; try: while True: gif.seek(frames); frames += 1; except EOFError: pass\<close>.
  The loop is entered with \<open>frames\<close> as counted so far; an \<^verbatim>\<open>EOFError\<close> ends it, any
  other exception leaves the function.
\<close>

function count_frames :: "animation \<Rightarrow> nat \<Rightarrow> error + (nat \<times> animation)" where
  "count_frames gif frames =
     (case seek gif frames of
        Inl e \<Rightarrow> (if e = EOFError then Inr (frames, gif) else Inl e)
      | Inr gif' \<Rightarrow> count_frames gif' (frames + 1))"
  by pat_completeness auto
termination
  by (relation "measure (\<lambda>(gif, frames). length (an_frames gif) - frames)")
     (auto simp: seek_def split: if_splits)

declare count_frames.simps [simp del]

section \<open>Python's floating point\<close>

text \<open>
  \<^verbatim>\<open>math.sqrt\<close> and \<^verbatim>\<open>/\<close> work on IEEE 754 doubles. A double is a real number with a
  53-bit significand; \<open>to_double\<close> rounds a real number to the nearest one, ties to the
  even significand. Only the normal range is modelled: every value the program rounds
  is zero or at least 1, and a result of \<open>2 ^ 1024\<close> or more is an overflow, which the
  callers below turn into \<^verbatim>\<open>OverflowError\<close>.
\<close>

definition rne :: "real \<Rightarrow> int" where
  "rne x =
     (let f = \<lfloor>x\<rfloor>; d = x - of_int f
      in if d < 1 / 2 then f else if 1 / 2 < d then f + 1 else if even f then f else f + 1)"

definition to_double :: "real \<Rightarrow> real" where
  "to_double x =
     (if x = 0 then 0
      else let e = \<lfloor>log 2 \<bar>x\<bar>\<rfloor>; u = 2 powr (of_int e - 52)
           in of_int (rne (x / u)) * u)"

text \<open>\<^verbatim>\<open>float(n)\<close> for an int, as \<^verbatim>\<open>math.sqrt(n)\<close> converts its argument.\<close>

definition float_of_nat :: "nat \<Rightarrow> error + real" where
  "float_of_nat n = (let r = to_double (real n) in if r < 2 ^ 1024 then Inr r else Inl OverflowError)"

definition math_sqrt :: "real \<Rightarrow> real" where
  "math_sqrt x = to_double (sqrt x)"

definition math_ceil :: "real \<Rightarrow> int" where
  "math_ceil x = \<lceil>x\<rceil>"

text \<open>\<^verbatim>\<open>a / b\<close> on ints: the exact quotient, rounded once.\<close>

definition true_div :: "nat \<Rightarrow> nat \<Rightarrow> error + real" where
  "true_div a b =
     (if b = 0 then Inl ZeroDivisionError
      else let r = to_double (real a / real b) in if r < 2 ^ 1024 then Inr r else Inl OverflowError)"

subsection \<open>The grid layout (lines 44-45)\<close>

text \<open>
  \<^verbatim>\<open>cols = math.ceil(math.sqrt(frames)); rows = math.ceil(frames / cols)\<close>.
\<close>

definition grid_layout :: "nat \<Rightarrow> error + (nat \<times> nat)" where
  "grid_layout frames =
     (case float_of_nat frames of
        Inl e \<Rightarrow> Inl e
      | Inr x \<Rightarrow>
          let cols = nat (math_ceil (math_sqrt x))
          in (case true_div frames cols of
                Inl e \<Rightarrow> Inl e
              | Inr q \<Rightarrow> Inr (cols, nat (math_ceil q))))"

subsection \<open>Pasting the frames (lines 51-59)\<close>

text \<open>
  \<^verbatim>\<open>for frame in range(frames)\<close>: seek, render, paste at
  \<open>((frame mod cols) * width, (frame div cols) * height)\<close>. Python's \<^verbatim>\<open>%\<close> and \<^verbatim>\<open>//\<close>
  raise \<^verbatim>\<open>ZeroDivisionError\<close> on a zero divisor.
\<close>

fun paste_frames ::
  "nat \<times> nat \<Rightarrow> nat \<Rightarrow> animation \<Rightarrow> image \<Rightarrow> nat list \<Rightarrow> error + (animation \<times> image)" where
  "paste_frames wh cols gif spritesheet [] = Inr (gif, spritesheet)"
| "paste_frames wh cols gif spritesheet (frame # rest) =
     (case seek gif frame of
        Inl e \<Rightarrow> Inl e
      | Inr gif' \<Rightarrow>
          if cols = 0 then Inl ZeroDivisionError
          else let frame_img = convert_RGBA gif';
                   x = (frame mod cols) * fst wh;
                   y = (frame div cols) * snd wh
               in paste_frames wh cols gif' (paste spritesheet frame_img (x, y)) rest)"

subsection \<open>From the opened animation to the canvas (lines 30-59)\<close>

definition transparent :: rgba where
  "transparent = (0, 0, 0, 0)"

definition build_canvas :: "animation \<Rightarrow> error + image" where
  "build_canvas gif =
     (let (width, height) = an_size gif
      in case count_frames gif 0 of
           Inl e \<Rightarrow> Inl e
         | Inr (frames, gif1) \<Rightarrow>
             (case grid_layout frames of
                Inl e \<Rightarrow> Inl e
              | Inr (cols, rows) \<Rightarrow>
                  (case Image_new (width * cols, height * rows) transparent of
                     Inl e \<Rightarrow> Inl e
                   | Inr spritesheet \<Rightarrow>
                       (case paste_frames (width, height) cols gif1 spritesheet [0..<frames] of
                          Inl e \<Rightarrow> Inl e
                        | Inr (gif2, spritesheet') \<Rightarrow> Inr spritesheet'))))"

section \<open>Strings and paths\<close>

text \<open>
  \<^verbatim>\<open>os.path\<close> on a POSIX system, \<^verbatim>\<open>str.lower\<close>, \<^verbatim>\<open>str.endswith\<close> and \<^verbatim>\<open>str()\<close> of a
  non-negative int. Characters are bytes; \<open>lower\<close> maps the ASCII capitals.
\<close>

definition basename :: "string \<Rightarrow> string" where
  "basename p = rev (takeWhile (\<lambda>c. c \<noteq> CHR ''/'') (rev p))"

definition rstrip_slash :: "string \<Rightarrow> string" where
  "rstrip_slash p = rev (dropWhile (\<lambda>c. c = CHR ''/'') (rev p))"

definition dirname :: "string \<Rightarrow> string" where
  "dirname p =
     (let head = rev (dropWhile (\<lambda>c. c \<noteq> CHR ''/'') (rev p))
      in if head \<noteq> [] \<and> (\<exists>c \<in> set head. c \<noteq> CHR ''/'') then rstrip_slash head else head)"

definition splitext :: "string \<Rightarrow> string \<times> string" where
  "splitext p =
     (let ext = rev (takeWhile (\<lambda>c. c \<noteq> CHR ''.'') (rev p));
          root = take (length p - length ext - 1) p
      in if CHR ''.'' \<in> set p \<and> CHR ''/'' \<notin> set ext \<and> (\<exists>c \<in> set (basename root). c \<noteq> CHR ''.'')
         then (root, CHR ''.'' # ext) else (p, []))"

definition join :: "string \<Rightarrow> string \<Rightarrow> string" where
  "join a b =
     (if b \<noteq> [] \<and> hd b = CHR ''/'' then b
      else if a = [] \<or> last a = CHR ''/'' then a @ b
      else a @ ''/'' @ b)"

definition lower_char :: "char \<Rightarrow> char" where
  "lower_char c =
     (let n = (of_char c :: nat) in if 65 \<le> n \<and> n \<le> 90 then char_of (n + 32) else c)"

definition lower :: "string \<Rightarrow> string" where
  "lower s = map lower_char s"

definition endswith :: "string \<Rightarrow> string \<Rightarrow> bool" where
  "endswith s t = (length t \<le> length s \<and> drop (length s - length t) s = t)"




section \<open>The file system and the console\<close>

text \<open>
  What the program sees of its environment. Directories are a set of paths, compared
  after dropping trailing slashes; regular files are a map from the path as spelled to
  the content; \<open>w_listing\<close> gives the entry names of a directory in the order
  \<^verbatim>\<open>os.listdir\<close> reports them; \<open>w_stdout\<close> is the lines printed so far. A file is
  either an image that \<^verbatim>\<open>Image.open\<close> decodes or anything else. An image file is its size
  and the frames that \<^verbatim>\<open>seek\<close> reaches counting from index 0. Pillow numbers the frames
  of a GIF, and of every format but one, from 0, and such a file has a frame 0; it
  numbers the layers of a PSD file from 1, and \<^verbatim>\<open>seek(0)\<close> on an opened PSD file raises
  \<^verbatim>\<open>EOFError\<close>: for such a file the list is empty. Two spellings of one path other than
  trailing slashes, links, permissions and full disks are not modelled.
\<close>

datatype file_data =
    Image_data "nat \<times> nat" "image list"
  | Other_data

record world =
  w_dirs :: "string set"
  w_files :: "string \<rightharpoonup> file_data"
  w_listing :: "string \<Rightarrow> string list"
  w_stdout :: "string list"

definition dir_key :: "string \<Rightarrow> string" where
  "dir_key p = (let q = rstrip_slash p in if q = [] then ''/'' else q)"

definition isdir :: "world \<Rightarrow> string \<Rightarrow> bool" where
  "isdir w p = (p \<noteq> [] \<and> dir_key p \<in> w_dirs w)"

definition isfile :: "world \<Rightarrow> string \<Rightarrow> bool" where
  "isfile w p = (p \<noteq> [] \<and> w_files w p \<noteq> None)"

text \<open>\<^verbatim>\<open>os.path.exists\<close>; the empty path names nothing.\<close>

definition path_exists :: "world \<Rightarrow> string \<Rightarrow> bool" where
  "path_exists w p = (isdir w p \<or> isfile w p)"

text \<open>The directories above \<open>p\<close>, which \<^verbatim>\<open>os.makedirs\<close> creates on the way.\<close>

definition parents :: "string \<Rightarrow> string list" where
  "parents p = map (\<lambda>i. dir_key (take i p)) (filter (\<lambda>i. p ! i = CHR ''/'') [1..<length p])"

text \<open>
  The first path below a regular file on the way to \<open>p\<close>: the \<^verbatim>\<open>mkdir\<close> or the write
  that fails with \<^verbatim>\<open>NotADirectoryError\<close>, if there is one.
\<close>

fun below_file :: "world \<Rightarrow> string list \<Rightarrow> string option" where
  "below_file w [] = None"
| "below_file w [a] = None"
| "below_file w (a # b # rest) = (if isfile w a then Some b else below_file w (b # rest))"

text \<open>
  \<^verbatim>\<open>os.makedirs(p)\<close> with \<^verbatim>\<open>exist_ok=False\<close>: the empty path is \<^verbatim>\<open>FileNotFoundError\<close>, an
  existing target is \<^verbatim>\<open>FileExistsError\<close>, a regular file on the way makes the \<^verbatim>\<open>mkdir\<close>
  below it fail, and otherwise the target and every missing directory above it are
  created.
\<close>

definition makedirs :: "world \<Rightarrow> string \<Rightarrow> error + world" where
  "makedirs w p =
     (if p = [] then Inl (FileNotFoundError p)
      else if path_exists w p then Inl (FileExistsError p)
      else case below_file w (parents p @ [p]) of
             Some q \<Rightarrow> Inl (NotADirectoryError q)
           | None \<Rightarrow> Inr (w\<lparr>w_dirs := w_dirs w \<union> set (parents p) \<union> {dir_key p}\<rparr>))"


text \<open>
  \<^verbatim>\<open>Image.open(p)\<close>. An image of more than twice \<^verbatim>\<open>Image.MAX_IMAGE_PIXELS\<close> (89478485)
  pixels is refused with \<^verbatim>\<open>DecompressionBombError\<close>.
\<close>

definition Image_open :: "world \<Rightarrow> string \<Rightarrow> error + animation" where
  "Image_open w p =
     (if p = [] then Inl (FileNotFoundError p)
      else case w_files w p of
             Some (Image_data sz frames) \<Rightarrow>
               if 2 * 89478485 < fst sz * snd sz then Inl DecompressionBombError
               else Inr \<lparr>an_size = sz, an_frames = frames, an_pos = 0\<rparr>
           | Some Other_data \<Rightarrow> Inl (UnidentifiedImageError p)
           | None \<Rightarrow> if isdir w p then Inl (IsADirectoryError p) else Inl (FileNotFoundError p))"

text \<open>
  \<^verbatim>\<open>img.save(p, 'PNG')\<close>: the file at \<open>p\<close> is created or replaced by the encoded
  image, a single-frame image file; the directory of \<open>p\<close> must exist (the empty
  directory name is the working directory), and a regular file on the way is
  \<^verbatim>\<open>NotADirectoryError\<close>. A new name is added to the listing of its directory.
\<close>

definition Image_save :: "world \<Rightarrow> image \<Rightarrow> string \<Rightarrow> error + world" where
  "Image_save w img p =
     (if isdir w p then Inl (IsADirectoryError p)
      else if below_file w (parents p @ [p]) \<noteq> None then Inl (NotADirectoryError p)
      else if dirname p \<noteq> [] \<and> \<not> isdir w (dirname p) then Inl (FileNotFoundError p)
      else Inr (w\<lparr>w_files := (w_files w)(p \<mapsto> Image_data (im_size img) [img]),
                   w_listing := (w_listing w)(dir_key (dirname p) :=
                      (if basename p \<in> set (w_listing w (dir_key (dirname p)))
                       then w_listing w (dir_key (dirname p))
                       else w_listing w (dir_key (dirname p)) @ [basename p]))\<rparr>))"

definition print :: "world \<Rightarrow> string \<Rightarrow> world" where
  "print w line = w\<lparr>w_stdout := w_stdout w @ [line]\<rparr>"

text \<open>\<^verbatim>\<open>str(e)\<close> of an exception.\<close>

fun str_error :: "error \<Rightarrow> string" where
  "str_error EOFError = []"
| "str_error ZeroDivisionError = ''division by zero''"
| "str_error OverflowError = ''int too large to convert to float''"
| "str_error MemoryError = []"
| "str_error DecompressionBombError = ''Image size exceeds limit, could be decompression bomb DOS attack.''"
| "str_error (FileNotFoundError p) = ''[Errno 2] No such file or directory: '' @ [CHR 39] @ p @ [CHR 39]"
| "str_error (FileExistsError p) = ''[Errno 17] File exists: '' @ [CHR 39] @ p @ [CHR 39]"
| "str_error (NotADirectoryError p) = ''[Errno 20] Not a directory: '' @ [CHR 39] @ p @ [CHR 39]"
| "str_error (IsADirectoryError p) = ''[Errno 21] Is a directory: '' @ [CHR 39] @ p @ [CHR 39]"
| "str_error (UnidentifiedImageError p) = ''cannot identify image file '' @ [CHR 39] @ p @ [CHR 39]"

section \<open>The program\<close>

subsection \<open>\<^verbatim>\<open>convert_gif_to_spritesheet\<close> (lines 6-66)\<close>

definition convert_gif_to_spritesheet ::
  "world \<Rightarrow> string \<Rightarrow> string option \<Rightarrow> (error + string) \<times> world" where
  "convert_gif_to_spritesheet w gif_path output_dir =
     (case Image_open w gif_path of
        Inl e \<Rightarrow> (Inl e, w)
      | Inr gif \<Rightarrow>
          let base_filename = basename gif_path;
              filename_without_ext = fst (splitext base_filename);
              output_dir' = (case output_dir of None \<Rightarrow> dirname gif_path | Some d \<Rightarrow> d)
          in (case (if \<not> path_exists w output_dir' then makedirs w output_dir' else Inr w) of
                Inl e \<Rightarrow> (Inl e, w)
              | Inr w1 \<Rightarrow>
                  (case build_canvas gif of
                     Inl e \<Rightarrow> (Inl e, w1)
                   | Inr spritesheet \<Rightarrow>
                       let output_path = join output_dir' (filename_without_ext @ ''_spritesheet.png'')
                       in (case Image_save w1 spritesheet output_path of
                             Inl e \<Rightarrow> (Inl e, w1)
                           | Inr w2 \<Rightarrow>
                               (Inr output_path, print w2 (''Created spritesheet: '' @ output_path))))))"

subsection \<open>\<^verbatim>\<open>process_directory\<close> (lines 68-97)\<close>

text \<open>
  The loop over the listing (lines 88-95), with the tally and the world as its state.
  \<^verbatim>\<open>except Exception\<close> catches every error of the model.
\<close>

fun process_files :: "string \<Rightarrow> string option \<Rightarrow> string list \<Rightarrow> nat \<times> world \<Rightarrow> nat \<times> world" where
  "process_files directory output_dir [] (processed, w) = (processed, w)"
| "process_files directory output_dir (filename # rest) (processed, w) =
     (if endswith (lower filename) ''.gif''
      then let gif_path = join directory filename
           in (case convert_gif_to_spritesheet w gif_path output_dir of
                 (Inr out, w') \<Rightarrow> process_files directory output_dir rest (processed + 1, w')
               | (Inl e, w') \<Rightarrow>
                   process_files directory output_dir rest
                     (processed, print w' (''Error processing '' @ filename @ '': '' @ str_error e)))
      else process_files directory output_dir rest (processed, w))"


subsection \<open>The script (lines 99-106)\<close>


section \<open>Rounding to a double\<close>

lemma rne_of_int: "rne (of_int k) = k"
  by (simp add: rne_def)


lemma rne_le: "x \<le> of_int K \<Longrightarrow> rne x \<le> K"
proof -
  assume a: "x \<le> of_int K"
  show ?thesis
  proof (cases "x = of_int K")
    case True then show ?thesis by (simp add: rne_of_int)
  next
    case False
    with a have "x < of_int K" by simp
    then have "\<lfloor>x\<rfloor> < K" by (simp add: floor_less_iff)
    then show ?thesis unfolding rne_def Let_def by auto
  qed
qed

lemma rne_gt: "of_int K + 1 / 2 < x \<Longrightarrow> K < rne x"
proof -
  assume a: "of_int K + 1 / 2 < x"
  then have k: "K \<le> \<lfloor>x\<rfloor>" by (simp add: le_floor_iff)
  show ?thesis
  proof (cases "K = \<lfloor>x\<rfloor>")
    case True
    with a have "1 / 2 < x - of_int \<lfloor>x\<rfloor>" by simp
    then show ?thesis unfolding rne_def Let_def using True by auto
  next
    case False
    with k have "K < \<lfloor>x\<rfloor>" by simp
    then show ?thesis unfolding rne_def Let_def by auto
  qed
qed

lemma to_double_binade:
  assumes "2 powr (of_int e) \<le> x" "x < 2 powr (of_int e + 1)"
  shows "to_double x = of_int (rne (x / 2 powr (of_int e - 52))) * 2 powr (of_int e - 52)"
proof -
  have "(0::real) < 2 powr (of_int e)" by simp
  then have pos: "0 < x" using assms(1) by linarith
  have "\<lfloor>log 2 x\<rfloor> = e"
    using pos assms by (simp add: floor_log_eq_powr_iff)
  then show ?thesis using pos by (simp add: to_double_def Let_def)
qed



lemma powr_sub52:
  fixes e :: nat
  assumes "e \<le> 52"
  shows "2 powr (real e - 52) = 1 / (2 ^ (52 - e) :: real)"
proof -
  have "real e - (52::real) = - real (52 - e)" using assms by linarith
  then have "2 powr (real e - 52) = 2 powr (- real (52 - e))" by (simp only:)
  also have "\<dots> = 1 / (2 powr real (52 - e))" by (simp add: powr_minus_divide)
  also have "\<dots> = 1 / (2 ^ (52 - e))" by (simp add: powr_realpow)
  finally show ?thesis .
qed

lemma powr_nat_exp: "2 powr (of_int (int e)) = (2 ^ e :: real)"
  by (simp add: powr_realpow)

lemma powr_nat_exp1: "2 powr (of_int (int e) + 1) = (2 ^ (e + 1) :: real)"
proof -
  have "of_int (int e) + (1::real) = real (e + 1)" by simp
  then show ?thesis by (metis powr_realpow zero_less_numeral)
qed

lemma to_double_scaled:
  fixes e :: nat
  assumes "e \<le> 52" "2 ^ e \<le> x" "x < 2 ^ (e + 1)"
  shows "to_double x = of_int (rne (x * 2 ^ (52 - e))) / 2 ^ (52 - e)"
proof -
  have "to_double x = of_int (rne (x / 2 powr (of_int (int e) - 52))) * 2 powr (of_int (int e) - 52)"
    by (rule to_double_binade) (use assms in \<open>simp_all only: powr_nat_exp powr_nat_exp1\<close>)
  then have "to_double x = of_int (rne (x / 2 powr (real e - 52))) * 2 powr (real e - 52)"
    by simp
  then show ?thesis by (simp only: powr_sub52 [OF assms(1)]) simp
qed

lemma to_double_nat_binade:
  fixes e n :: nat
  assumes "e \<le> 52" "2 ^ e \<le> n" "n < 2 ^ (e + 1)"
  shows "to_double (real n) = real n"
proof -
  have a: "(2::real) ^ e \<le> real n" using assms(2) by (metis of_nat_le_iff of_nat_numeral of_nat_power)
  have b: "real n < 2 ^ (e + 1)" using assms(3) by (metis of_nat_less_iff of_nat_numeral of_nat_power)
  have "real n * 2 ^ (52 - e) = of_int (int (n * 2 ^ (52 - e)))" by simp
  then have "rne (real n * 2 ^ (52 - e)) = int (n * 2 ^ (52 - e))"
    by (simp only: rne_of_int)
  then show ?thesis
    by (simp add: to_double_scaled [OF assms(1) a b])
qed

lemma ceil_to_double:
  fixes m e :: nat and x :: real
  assumes "2 ^ e \<le> m" "m < 2 ^ (e + 1)" "e \<le> 52"
    and "real m < x" "x < real m + 1" "1 / 2 ^ (53 - e) < x - real m"
  shows "\<lceil>to_double x\<rceil> = int m + 1"
proof -
  define s :: nat where "s = 2 ^ (52 - e)"
  have spos: "0 < real s" by (simp add: s_def)
  have a: "(2::real) ^ e \<le> real m" using assms(1) by (metis of_nat_le_iff of_nat_numeral of_nat_power)
  have b: "real m + 1 \<le> 2 ^ (e + 1)"
  proof -
    have "m + 1 \<le> 2 ^ (e + 1)" using assms(2) by simp
    then have "real (m + 1) \<le> real (2 ^ (e + 1))" by (simp only: of_nat_le_iff)
    then show ?thesis by simp
  qed
  have lo: "2 ^ e \<le> x" using a assms(4) by linarith
  have hi: "x < 2 ^ (e + 1)" using b assms(5) by linarith
  have td: "to_double x = of_int (rne (x * real s)) / real s"
    using to_double_scaled [OF assms(3) lo hi] by (simp add: s_def)
  have half: "1 / 2 ^ (53 - e) = 1 / (2 * real s)"
  proof -
    have "53 - e = Suc (52 - e)" using assms(3) by simp
    then show ?thesis by (simp add: s_def)
  qed
  have "1 / (2 * real s) < x - real m" using assms(6) half by simp
  then have "1 / 2 < (x - real m) * real s" using spos by (simp add: field_simps)
  then have "of_int (int (m * s)) + 1 / 2 < x * real s" by (simp add: algebra_simps)
  then have g: "int (m * s) < rne (x * real s)" by (rule rne_gt)
  have "x * real s \<le> (real m + 1) * real s"
    using assms(5) spos by (intro mult_right_mono) simp_all
  then have "x * real s \<le> of_int (int ((m + 1) * s))" by (simp add: algebra_simps)
  then have l: "rne (x * real s) \<le> int ((m + 1) * s)" by (rule rne_le)
  have "real m < to_double x"
  proof -
    have "real (m * s) < of_int (rne (x * real s))" using g by linarith
    then show ?thesis using spos by (simp add: td field_simps)
  qed
  moreover have "to_double x \<le> real m + 1"
  proof -
    have "of_int (rne (x * real s)) \<le> real ((m + 1) * s)" using l by linarith
    then show ?thesis using spos by (simp add: td field_simps)
  qed
  ultimately show ?thesis by (simp add: ceiling_eq_iff)
qed

lemma ex_binade:
  fixes m :: nat
  assumes "1 \<le> m" "m < 2 ^ k"
  shows "\<exists>e. 2 ^ e \<le> m \<and> m < 2 ^ (e + 1) \<and> e < k"
proof -
  obtain e where e: "2 ^ e \<le> m" "m < 2 ^ (e + 1)"
    using ex_power_ivl1 [of 2 m] assms(1) by auto
  have "(2::nat) ^ e < 2 ^ k" using e(1) assms(2) by linarith
  then have "e < k" by simp
  with e show ?thesis by blast
qed

lemma to_double_nat:
  assumes "n \<le> 2 ^ 52"
  shows "to_double (real n) = real n"
proof (cases "n = 0")
  case True
  then show ?thesis by (simp add: to_double_def)
next
  case False
  then have "1 \<le> n" "n < 2 ^ 53" using assms by simp_all
  then obtain e where "2 ^ e \<le> n" "n < 2 ^ (e + 1)" "e < 53"
    using ex_binade by blast
  then show ?thesis using to_double_nat_binade [of e n] by simp
qed

lemma ceil_to_double_small:
  fixes m :: nat and x :: real
  assumes "1 \<le> m" "m < 2 ^ 26" "real m < x" "x < real m + 1" "1 / 2 ^ 27 \<le> x - real m"
  shows "\<lceil>to_double x\<rceil> = int m + 1"
proof -
  obtain e where e: "2 ^ e \<le> m" "m < 2 ^ (e + 1)" "e < 26"
    using ex_binade [OF assms(1,2)] by blast
  have "(2::real) ^ 27 < 2 ^ (53 - e)"
    using e(3) by (intro power_strict_increasing) simp_all
  then have "1 / 2 ^ (53 - e) < 1 / (2::real) ^ 27"
    by (simp add: field_simps)
  then have "1 / 2 ^ (53 - e) < x - real m" using assms(5) by linarith
  then show ?thesis
    using ceil_to_double [OF e(1,2) _ assms(3,4)] e(3) by simp
qed

lemma ceil_sqrt_double:
  fixes n :: nat
  assumes "n \<le> 2 ^ 52"
  shows "\<lceil>to_double (sqrt (real n))\<rceil> = \<lceil>sqrt (real n)\<rceil>"
proof (cases "n = 0")
  case True
  then show ?thesis by (simp add: to_double_def)
next
  case False
  define m where "m = nat \<lfloor>sqrt (real n)\<rfloor>"
  have s1: "1 \<le> sqrt (real n)" using False by simp
  have mlo: "real m \<le> sqrt (real n)" unfolding m_def using s1 by simp
  have mhi: "sqrt (real n) < real m + 1" unfolding m_def using s1 by simp
  have m1: "1 \<le> m" unfolding m_def using s1 by (simp add: le_nat_floor)
  have "(real m)\<^sup>2 \<le> (sqrt (real n))\<^sup>2" using mlo by (intro power_mono) simp_all
  then have msq: "real (m * m) \<le> real n" by (simp add: power2_eq_square)
  then have msq': "m * m \<le> n" by (simp only: of_nat_le_iff)
  show ?thesis
  proof (cases "sqrt (real n) = real m")
    case True
    have "m \<le> m * m" by simp
    then have "m \<le> n" using msq' by linarith
    then have "to_double (real m) = real m" using to_double_nat assms by simp
    then show ?thesis by (simp add: True)
  next
    case False
    then have lt: "real m < sqrt (real n)" using mlo by simp
    then have "(real m)\<^sup>2 < (sqrt (real n))\<^sup>2" by (intro power_strict_mono) simp_all
    then have "real (m * m) < real n" by (simp add: power2_eq_square)
    then have mm: "m * m < n" by (simp only: of_nat_less_iff)
    then have "m * m + 1 \<le> n" by simp
    then have "real (m * m + 1) \<le> real n" by (simp only: of_nat_le_iff)
    then have d: "1 \<le> real n - real m * real m" by simp
    have m26: "m < 2 ^ 26"
    proof (rule ccontr)
      assume "\<not> m < 2 ^ 26"
      then have "2 ^ 26 \<le> m" by simp
      then have "2 ^ 26 * 2 ^ 26 \<le> m * m" by (intro mult_le_mono)
      then show False using mm assms by simp
    qed
    then have "real m < real (2 ^ 26)" by (simp only: of_nat_less_iff)
    then have "real m < 2 ^ 26" by simp
    then have sum: "sqrt (real n) + real m < 2 ^ 27" using mhi by simp
    have sumpos: "0 < sqrt (real n) + real m" using s1 by linarith
    have "(sqrt (real n) - real m) * (sqrt (real n) + real m) = real n - real m * real m"
      by (simp add: algebra_simps)
    then have "1 \<le> (sqrt (real n) - real m) * (sqrt (real n) + real m)" using d by simp
    then have "1 / (sqrt (real n) + real m) \<le> sqrt (real n) - real m"
      using sumpos by (simp add: field_simps)
    moreover have "1 / 2 ^ 27 \<le> 1 / (sqrt (real n) + real m)"
      using sum sumpos by (simp add: field_simps)
    ultimately have gap: "1 / 2 ^ 27 \<le> sqrt (real n) - real m" by linarith
    have "\<lceil>to_double (sqrt (real n))\<rceil> = int m + 1"
      by (rule ceil_to_double_small [OF m1 m26 lt mhi gap])
    moreover have "\<lceil>sqrt (real n)\<rceil> = int m + 1"
      using lt mhi by (simp add: ceiling_eq_iff)
    ultimately show ?thesis by simp
  qed
qed

lemma ceil_div_double:
  fixes n c :: nat
  assumes "1 \<le> c" "c \<le> n" "n \<le> c * c" "n \<le> 2 ^ 52" "c \<le> 2 ^ 26"
  shows "\<lceil>to_double (real n / real c)\<rceil> = \<lceil>real n / real c\<rceil>"
proof -
  define m where "m = n div c"
  define r where "r = n mod c"
  have n: "n = m * c + r" by (simp add: m_def r_def)
  have cpos: "0 < real c" using assms(1) by simp
  have q: "real n / real c = real m + real r / real c"
    using cpos by (simp add: n field_simps)
  show ?thesis
  proof (cases "r = 0")
    case True
    have "m \<le> n" by (simp add: m_def)
    then have "to_double (real m) = real m" using to_double_nat assms(4) by simp
    then show ?thesis by (simp add: q True)
  next
    case False
    have rc: "real r < real c" using assms(1) by (simp add: r_def)
    have r1: "1 \<le> real r" using False by simp
    have m1: "1 \<le> m" using assms(1,2) by (simp add: m_def div_greater_zero_iff Suc_le_eq)
    have "m * c < c * c" using n False assms(3) by linarith
    then have "m < c" by simp
    then have m26: "m < 2 ^ 26" using assms(5) by linarith
    have lo: "real m < real n / real c" using cpos r1 by (simp add: q)
    have hi: "real n / real c < real m + 1" using cpos rc by (simp add: q)
    have "real c \<le> real (2 ^ 26)" using assms(5) by (simp only: of_nat_le_iff)
    then have "real c \<le> 2 ^ 27 * real r" using r1 by simp
    then have "1 / 2 ^ 27 \<le> real r / real c" using cpos by (simp add: field_simps)
    then have gap: "1 / 2 ^ 27 \<le> real n / real c - real m" by (simp add: q)
    have "\<lceil>to_double (real n / real c)\<rceil> = int m + 1"
      by (rule ceil_to_double_small [OF m1 m26 lo hi gap])
    moreover have "\<lceil>real n / real c\<rceil> = int m + 1"
      using lo hi by (simp add: ceiling_eq_iff)
    ultimately show ?thesis by simp
  qed
qed

lemma ceil_sqrt_le:
  fixes n k :: nat
  assumes "n \<le> k * k"
  shows "nat \<lceil>sqrt (real n)\<rceil> \<le> k"
proof -
  have "real n \<le> (real k)\<^sup>2"
    using assms by (simp add: power2_eq_square) (metis of_nat_le_iff of_nat_mult)
  then have "sqrt (real n) \<le> real k" by (simp add: real_le_lsqrt)
  then show ?thesis by (simp add: ceiling_le_iff)
qed

lemma ceil_sqrt_bounds:
  fixes n :: nat
  assumes "1 \<le> n"
  shows "1 \<le> nat \<lceil>sqrt (real n)\<rceil>"
    and "n \<le> nat \<lceil>sqrt (real n)\<rceil> * nat \<lceil>sqrt (real n)\<rceil>"
    and "(nat \<lceil>sqrt (real n)\<rceil> - 1) * (nat \<lceil>sqrt (real n)\<rceil> - 1) < n"
    and "nat \<lceil>sqrt (real n)\<rceil> \<le> n"
proof -
  define c where "c = nat \<lceil>sqrt (real n)\<rceil>"
  have s1: "1 \<le> sqrt (real n)" using assms by simp
  have cpos: "0 < \<lceil>sqrt (real n)\<rceil>" using assms by simp
  have ci: "int c = \<lceil>sqrt (real n)\<rceil>"
    unfolding c_def by (rule nat_0_le [OF order_less_imp_le [OF cpos]])
  have up: "sqrt (real n) \<le> real c"
    using ci by (metis le_of_int_ceiling of_int_of_nat_eq)
  have dn: "real c - 1 < sqrt (real n)"
    using ci by (metis ceiling_correct of_int_of_nat_eq)
  show c1: "1 \<le> nat \<lceil>sqrt (real n)\<rceil>" using cpos by linarith
  have "(sqrt (real n))\<^sup>2 \<le> (real c)\<^sup>2" using up s1 by (intro power_mono) simp_all
  then have "real n \<le> real (c * c)" by (simp add: power2_eq_square)
  then have "n \<le> c * c" by (simp only: of_nat_le_iff)
  then show "n \<le> nat \<lceil>sqrt (real n)\<rceil> * nat \<lceil>sqrt (real n)\<rceil>" by (simp add: c_def)
  have c1': "1 \<le> c" using c1 by (simp add: c_def)
  then have "real (c - 1) = real c - 1" by simp
  then have "real (c - 1) < sqrt (real n)" using dn by simp
  then have "(real (c - 1))\<^sup>2 < (sqrt (real n))\<^sup>2" by (intro power_strict_mono) simp_all
  then have "real ((c - 1) * (c - 1)) < real n" by (simp add: power2_eq_square)
  then have "(c - 1) * (c - 1) < n" by (simp only: of_nat_less_iff)
  then show "(nat \<lceil>sqrt (real n)\<rceil> - 1) * (nat \<lceil>sqrt (real n)\<rceil> - 1) < n" by (simp add: c_def)
  have "n \<le> n * n" by simp
  then show "nat \<lceil>sqrt (real n)\<rceil> \<le> n" by (rule ceil_sqrt_le)
qed

lemma grid_layout_exact:
  fixes n :: nat
  assumes "1 \<le> n" "n \<le> 2 ^ 52"
  shows "grid_layout n =
    Inr (nat \<lceil>sqrt (real n)\<rceil>, nat \<lceil>real n / real (nat \<lceil>sqrt (real n)\<rceil>)\<rceil>)"
proof -
  define c where "c = nat \<lceil>sqrt (real n)\<rceil>"
  have big: "(2::real) ^ 52 < 2 ^ 1024" by (rule power_strict_increasing) simp_all
  have "real n \<le> real (2 ^ 52)" using assms(2) by (simp only: of_nat_le_iff)
  then have n52: "real n \<le> 2 ^ 52" by simp
  then have nbig: "real n < 2 ^ 1024" using big by linarith
  have f: "float_of_nat n = Inr (real n)"
    using nbig by (simp only: float_of_nat_def Let_def to_double_nat [OF assms(2)] if_True)
  have cols: "nat (math_ceil (math_sqrt (real n))) = c"
    by (simp add: math_ceil_def math_sqrt_def ceil_sqrt_double [OF assms(2)] c_def)
  have c1: "1 \<le> c" and cn: "c \<le> n" and ncc: "n \<le> c * c"
    using ceil_sqrt_bounds [OF assms(1)] by (simp_all add: c_def)
  have "n \<le> 2 ^ 26 * 2 ^ 26" using assms(2) by simp
  then have c26: "c \<le> 2 ^ 26" unfolding c_def by (rule ceil_sqrt_le)
  have cd: "\<lceil>to_double (real n / real c)\<rceil> = \<lceil>real n / real c\<rceil>"
    by (rule ceil_div_double [OF c1 cn ncc assms(2) c26])
  have rc1: "1 \<le> real c" using c1 by simp
  have "real n / real c \<le> real n / 1" by (intro divide_left_mono) (use rc1 in simp_all)
  then have "real n / real c \<le> real n" by simp
  then have "\<lceil>real n / real c\<rceil> \<le> int n" by (simp add: ceiling_le_iff)
  then have "\<lceil>to_double (real n / real c)\<rceil> \<le> int n" by (simp only: cd)
  then have "to_double (real n / real c) \<le> real n" by (simp add: ceiling_le_iff)
  then have "to_double (real n / real c) < 2 ^ 1024" using nbig by linarith
  then have t: "true_div n c = Inr (to_double (real n / real c))"
    using c1 by (simp add: true_div_def Let_def)
  have "grid_layout n = Inr (c, nat (math_ceil (to_double (real n / real c))))"
    by (simp only: grid_layout_def f sum.case cols Let_def t)
  then have "grid_layout n = Inr (c, nat \<lceil>real n / real c\<rceil>)"
    by (simp only: math_ceil_def cd)
  then show ?thesis by (simp only: c_def)
qed

section \<open>The frame scan\<close>

lemma seek_ok: "n < length (an_frames gif) \<Longrightarrow> seek gif n = Inr (gif\<lparr>an_pos := n\<rparr>)"
  by (simp add: seek_def)

lemma seek_eof: "length (an_frames gif) \<le> n \<Longrightarrow> seek gif n = Inl EOFError"
  by (simp add: seek_def)

lemma count_frames_from:
  "k \<le> length (an_frames gif) \<Longrightarrow>
   \<exists>gif'. count_frames gif k = Inr (length (an_frames gif), gif') \<and> an_frames gif' = an_frames gif
     \<and> an_size gif' = an_size gif"
proof (induction "length (an_frames gif) - k" arbitrary: gif k)
  case 0
  then have "k = length (an_frames gif)" by simp
  then show ?case by (subst count_frames.simps) (simp add: seek_eof)
next
  case (Suc d)
  then have lt: "k < length (an_frames gif)" by simp
  have "d = length (an_frames (gif\<lparr>an_pos := k\<rparr>)) - (k + 1)" using Suc(2) by simp
  moreover have "k + 1 \<le> length (an_frames (gif\<lparr>an_pos := k\<rparr>))" using lt by simp
  ultimately obtain gif' where
    "count_frames (gif\<lparr>an_pos := k\<rparr>) (k + 1) = Inr (length (an_frames (gif\<lparr>an_pos := k\<rparr>)), gif')"
    "an_frames gif' = an_frames (gif\<lparr>an_pos := k\<rparr>)" "an_size gif' = an_size (gif\<lparr>an_pos := k\<rparr>)"
    using Suc(1) by blast
  then show ?case
    by (subst count_frames.simps) (simp add: seek_ok [OF lt])
qed

lemma seek_card: "card {k. \<exists>g. seek gif k = Inr g} = length (an_frames gif)"
proof -
  have "{k. \<exists>g. seek gif k = Inr g} = {..<length (an_frames gif)}"
    by (auto simp: seek_def)
  then show ?thesis by simp
qed

text \<open>
  Claim C5. The frame count is found by advancing the cursor from index 0 until
  \<^verbatim>\<open>seek\<close> reports the end: the scan returns (the function is total, and its result
  is never an error), the count it returns is the number of indices at which \<^verbatim>\<open>seek\<close>
  succeeds, and the first index past the last frame is the one that raises \<^verbatim>\<open>EOFError\<close>.
\<close>

theorem count_frames_counts:
  "\<exists>gif'. count_frames gif 0 = Inr (length (an_frames gif), gif')
     \<and> length (an_frames gif) = card {k. \<exists>g. seek gif k = Inr g}
     \<and> seek gif (length (an_frames gif)) = Inl EOFError"
  using count_frames_from [of 0 gif] by (auto simp: seek_card seek_eof)





lemma grid_layout_zero: "grid_layout 0 = Inl ZeroDivisionError"
  by (simp add: grid_layout_def float_of_nat_def to_double_def math_sqrt_def math_ceil_def true_div_def)

section \<open>The layout\<close>

lemma rne_down:
  assumes "0 \<le> d" "d < 1 / 2"
  shows "rne (of_int K + d) = K"
proof -
  have "\<lfloor>of_int K + d\<rfloor> = K" using assms by (simp add: floor_unique)
  then show ?thesis using assms by (simp add: rne_def)
qed

lemma to_double_round_down:
  assumes "2 powr (of_int e) \<le> x" "x < 2 powr (of_int e + 1)"
    and "x / 2 powr (of_int e - 52) = of_int K + d" "0 \<le> d" "d < 1 / 2"
  shows "to_double x = of_int K * 2 powr (of_int e - 52)"
  by (simp only: to_double_binade [OF assms(1,2)] assms(3) rne_down [OF assms(4,5)])

lemma to_double_large: "to_double (real (2 ^ 54 + 1)) = 2 ^ 54"
proof -
  have "to_double (real (2 ^ 54 + 1)) = of_int (2 ^ 52) * 2 powr (of_int 54 - 52)"
  proof (rule to_double_round_down [where d = "1 / 4"])
    show "2 powr (of_int 54) \<le> real (2 ^ 54 + 1)" by simp
    show "real (2 ^ 54 + 1) < 2 powr (of_int 54 + 1)" by simp
    show "real (2 ^ 54 + 1) / 2 powr (of_int 54 - 52) = of_int (2 ^ 52) + 1 / 4" by simp
  qed simp_all
  then show ?thesis by simp
qed

lemma to_double_quot: "to_double (real (2 ^ 54 + 1) / real (2 ^ 27)) = 2 ^ 27"
proof -
  have "to_double (real (2 ^ 54 + 1) / real (2 ^ 27)) = of_int (2 ^ 52) * 2 powr (of_int 27 - 52)"
  proof (rule to_double_round_down [where d = "1 / 4"])
    show "2 powr (of_int 27) \<le> real (2 ^ 54 + 1) / real (2 ^ 27)" by simp
    show "real (2 ^ 54 + 1) / real (2 ^ 27) < 2 powr (of_int 27 + 1)" by simp
    show "real (2 ^ 54 + 1) / real (2 ^ 27) / 2 powr (of_int 27 - 52) = of_int (2 ^ 52) + 1 / 4"
      by (simp add: powr_minus_divide)
  qed simp_all
  then show ?thesis by (simp add: powr_minus_divide)
qed


lemma below_overflow: "(2::real) ^ k < 2 ^ 1024" if "k < 1024"
  using that by (intro power_strict_increasing) simp_all

lemma grid_layout_large: "grid_layout (2 ^ 54 + 1) = Inr (2 ^ 27, 2 ^ 27)"
proof -
  have f: "float_of_nat (2 ^ 54 + 1) = Inr (2 ^ 54)"
    using below_overflow [of 54] by (simp only: float_of_nat_def to_double_large Let_def) simp
  have "sqrt ((2::real) ^ 54) = 2 ^ 27"
    by (rule real_sqrt_unique) simp_all
  moreover have "to_double (real (2 ^ 27)) = real (2 ^ 27)"
    by (rule to_double_nat) simp
  ultimately have "math_sqrt (2 ^ 54) = 2 ^ 27" by (simp add: math_sqrt_def)
  then have c: "nat (math_ceil (math_sqrt (2 ^ 54))) = 2 ^ 27"
    by (simp add: math_ceil_def)
  have t: "true_div (2 ^ 54 + 1) (2 ^ 27) = Inr (2 ^ 27)"
    using below_overflow [of 27] by (simp only: true_div_def to_double_quot Let_def) simp
  have "nat (math_ceil ((2::real) ^ 27)) = 2 ^ 27" by (simp add: math_ceil_def)
  then show ?thesis
    by (simp only: grid_layout_def f sum.case Let_def c t)
qed

lemma ceil_sqrt_eq:
  fixes n c :: nat
  assumes "(c - 1) * (c - 1) < n" "n \<le> c * c"
  shows "nat \<lceil>sqrt (real n)\<rceil> = c"
proof -
  have c1: "1 \<le> c" using assms by (cases c) simp_all
  have "real ((c - 1) * (c - 1)) < real n" using assms(1) by (simp only: of_nat_less_iff)
  then have "(real (c - 1))\<^sup>2 < real n" by (simp add: power2_eq_square)
  then have "real (c - 1) < sqrt (real n)" by (rule real_less_rsqrt)
  then have lo: "real c - 1 < sqrt (real n)" using c1 by simp
  have "real n \<le> real (c * c)" using assms(2) by (simp only: of_nat_le_iff)
  then have "real n \<le> (real c)\<^sup>2" by (simp add: power2_eq_square)
  then have hi: "sqrt (real n) \<le> real c" by (simp add: real_le_lsqrt)
  have "\<lceil>sqrt (real n)\<rceil> = int c"
    using lo hi by (intro ceiling_unique) simp_all
  then show ?thesis by simp
qed

lemma ceil_div_eq:
  fixes n c r :: nat
  assumes "(r - 1) * c < n" "n \<le> r * c" "0 < c"
  shows "nat \<lceil>real n / real c\<rceil> = r"
proof -
  have r1: "1 \<le> r" using assms by (cases r) simp_all
  have cpos: "0 < real c" using assms(3) by simp
  have "real ((r - 1) * c) < real n" using assms(1) by (simp only: of_nat_less_iff)
  then have "(real r - 1) * real c < real n" using r1 by simp
  then have lo: "real r - 1 < real n / real c" using cpos by (simp add: field_simps)
  have "real n \<le> real (r * c)" using assms(2) by (simp only: of_nat_le_iff)
  then have "real n \<le> real r * real c" by simp
  then have hi: "real n / real c \<le> real r" using cpos by (simp add: field_simps)
  have "\<lceil>real n / real c\<rceil> = int r"
    using lo hi by (intro ceiling_unique) simp_all
  then show ?thesis by simp
qed

lemma grid_layout_eval:
  fixes n c r :: nat
  assumes "1 \<le> n" "n \<le> 2 ^ 52" "(c - 1) * (c - 1) < n" "n \<le> c * c"
    and "(r - 1) * c < n" "n \<le> r * c"
  shows "grid_layout n = Inr (c, r)"
proof -
  have c: "nat \<lceil>sqrt (real n)\<rceil> = c" by (rule ceil_sqrt_eq [OF assms(3,4)])
  have cpos: "0 < c" using assms(1,4) by (cases c) simp_all
  have r: "nat \<lceil>real n / real c\<rceil> = r" by (rule ceil_div_eq [OF assms(5,6) cpos])
  show ?thesis by (simp only: grid_layout_exact [OF assms(1,2)] c r)
qed

text \<open>
  Claim C2, as amended. For every frame count \<open>N\<close> from 1 to \<open>2 ^ 52\<close> the layout is
  computed without error, \<open>columns = ceil (sqrt N)\<close>, \<open>rows = ceil (N / columns)\<close>,
  \<open>columns * rows \<ge> N\<close>, and \<open>columns\<close> is the smallest integer that is at least
  \<open>sqrt N\<close>. (Up to \<open>2 ^ 52\<close> the rounding of the double arithmetic does not change
  either ceiling.)
\<close>

theorem grid_layout_spec:
  fixes N :: nat
  assumes "1 \<le> N" "N \<le> 2 ^ 52"
  shows "\<exists>cols rows. grid_layout N = Inr (cols, rows)
     \<and> int cols = \<lceil>sqrt (real N)\<rceil> \<and> int rows = \<lceil>real N / real cols\<rceil>
     \<and> N \<le> cols * rows
     \<and> sqrt (real N) \<le> real cols \<and> (\<forall>k::nat. sqrt (real N) \<le> real k \<longrightarrow> cols \<le> k)"
proof -
  define cols where "cols = nat \<lceil>sqrt (real N)\<rceil>"
  define rows where "rows = nat \<lceil>real N / real cols\<rceil>"
  have g: "grid_layout N = Inr (cols, rows)"
    by (simp only: grid_layout_exact [OF assms] cols_def rows_def)
  have c1: "1 \<le> cols" and ncc: "N \<le> cols * cols"
    using ceil_sqrt_bounds [OF assms(1)] by (simp_all add: cols_def)
  have cpos: "0 < \<lceil>sqrt (real N)\<rceil>" using assms(1) by simp
  have ci: "int cols = \<lceil>sqrt (real N)\<rceil>"
    unfolding cols_def by (rule nat_0_le [OF order_less_imp_le [OF cpos]])
  have "0 \<le> real N / real cols" by simp
  then have "- 1 < real N / real cols" by linarith
  then have "0 \<le> \<lceil>real N / real cols\<rceil>" by (simp only: zero_le_ceiling)
  then have ri: "int rows = \<lceil>real N / real cols\<rceil>" unfolding rows_def by (rule nat_0_le)
  have up: "sqrt (real N) \<le> real cols"
    using ci by (metis le_of_int_ceiling of_int_of_nat_eq)
  have "real N / real cols \<le> real rows"
    using ri by (metis le_of_int_ceiling of_int_of_nat_eq)
  then have "real N \<le> real rows * real cols" using c1 by (simp add: field_simps)
  then have "real N \<le> real (cols * rows)" by (simp add: mult.commute)
  then have cover: "N \<le> cols * rows" by (simp only: of_nat_le_iff)
  have least: "cols \<le> k" if "sqrt (real N) \<le> real k" for k :: nat
  proof -
    have "\<lceil>sqrt (real N)\<rceil> \<le> int k" using that by (simp add: ceiling_le_iff)
    then show ?thesis using ci by linarith
  qed
  show ?thesis using g ci ri cover up least by blast
qed

theorem grid_layout_spec_witness:
  "1 \<le> (5::nat) \<and> (5::nat) \<le> 2 ^ 52 \<and> grid_layout 5 = Inr (3, 2)"
proof -
  obtain cols rows where g: "grid_layout 5 = Inr (cols, rows)"
    and c: "int cols = \<lceil>sqrt (real 5)\<rceil>" and r: "int rows = \<lceil>real 5 / real cols\<rceil>"
    using grid_layout_spec [of 5] by auto
  have "nat \<lceil>sqrt (real 5)\<rceil> = 3" by (rule ceil_sqrt_eq) simp_all
  then have c3: "cols = 3" using c by linarith
  have "nat \<lceil>real 5 / real 3\<rceil> = 2" by (rule ceil_div_eq) simp_all
  then have "rows = 2" using r c3 by simp
  then show ?thesis using g c3 by simp
qed

text \<open>
  Claim C2 as stated fails for very large frame counts: at \<open>N = 2 ^ 54 + 1\<close> the
  conversion of \<open>N\<close> to a double rounds it to \<open>2 ^ 54\<close>, so \<open>columns = rows = 2 ^ 27\<close>
  and the grid has fewer cells than frames.
\<close>

theorem grid_layout_large_counterexample:
  "grid_layout (2 ^ 54 + 1) = Inr (2 ^ 27, 2 ^ 27) \<and> (2 ^ 27 * 2 ^ 27 :: nat) < 2 ^ 54 + 1"
  using grid_layout_large by simp





lemma grid_layout_Inr_D:
  assumes "grid_layout N = Inr (cols, rows)"
  shows "cols = nat \<lceil>to_double (sqrt (to_double (real N)))\<rceil>" "cols \<noteq> 0"
    "rows = nat \<lceil>to_double (real N / real cols)\<rceil>"
proof -
  define c where "c = nat (math_ceil (math_sqrt (to_double (real N))))"
  have t: "to_double (real N) < 2 ^ 1024"
  proof (rule ccontr)
    assume "\<not> to_double (real N) < 2 ^ 1024"
    then have "grid_layout N = Inl OverflowError"
      by (simp only: grid_layout_def float_of_nat_def Let_def if_False sum.case)
    then show False using assms by simp
  qed
  have g: "grid_layout N = (case true_div N c of Inl e \<Rightarrow> Inl e | Inr q \<Rightarrow> Inr (c, nat (math_ceil q)))"
    by (simp only: grid_layout_def float_of_nat_def Let_def t if_True sum.case c_def)
  have c0: "c \<noteq> 0"
  proof
    assume "c = 0"
    then have "true_div N c = Inl ZeroDivisionError" by (simp add: true_div_def)
    then have "grid_layout N = Inl ZeroDivisionError" by (simp only: g sum.case)
    then show False using assms by simp
  qed
  have q: "to_double (real N / real c) < 2 ^ 1024"
  proof (rule ccontr)
    assume "\<not> to_double (real N / real c) < 2 ^ 1024"
    then have "grid_layout N = Inl OverflowError"
      by (simp only: g true_div_def c0 Let_def if_False sum.case)
    then show False using assms by simp
  qed
  have "grid_layout N = Inr (c, nat (math_ceil (to_double (real N / real c))))"
    by (simp only: g true_div_def c0 Let_def q if_True if_False sum.case)
  then have e: "cols = c" "rows = nat (math_ceil (to_double (real N / real c)))"
    using assms by simp_all
  show "cols = nat \<lceil>to_double (sqrt (to_double (real N)))\<rceil>"
    by (simp only: e c_def math_ceil_def math_sqrt_def)
  show "cols \<noteq> 0" using c0 e by simp
  show "rows = nat \<lceil>to_double (real N / real cols)\<rceil>"
    by (simp only: e math_ceil_def)
qed


section \<open>Pasting into the grid\<close>

lemma im_size_paste: "im_size (paste canvas src xy) = im_size canvas"
  by (simp add: paste_def)

lemma box_div:
  fixes w a X :: nat
  assumes "0 < w"
  shows "(a * w \<le> X \<and> X < a * w + w) \<longleftrightarrow> X div w = a"
proof
  assume "a * w \<le> X \<and> X < a * w + w"
  then show "X div w = a"
    using assms by (intro div_nat_eqI) (simp_all add: mult.commute)
next
  assume "X div w = a"
  then have "a * w = X - X mod w" by (simp add: minus_mod_eq_div_mult)
  moreover have "X mod w < w" using assms by simp
  moreover have "X mod w \<le> X" by simp
  ultimately show "a * w \<le> X \<and> X < a * w + w" by linarith
qed

lemma cell_index:
  fixes cols a b j :: nat
  assumes "a < cols"
  shows "(j mod cols = a \<and> j div cols = b) \<longleftrightarrow> j = b * cols + a"
  using assms by (auto simp: div_mult_mod_eq)

lemma im_px_paste_cell:
  fixes w h cols j X Y :: nat
  assumes "im_size src = (w, h)" "X < fst (im_size canvas)" "Y < snd (im_size canvas)"
    and "X < w * cols" "0 < h"
  shows "im_px (paste canvas src ((j mod cols) * w, (j div cols) * h)) (X, Y) =
    (if j = (Y div h) * cols + X div w then im_px src (X mod w, Y mod h) else im_px canvas (X, Y))"
proof -
  have wpos: "0 < w" using assms(4) by (cases w) simp_all
  have cpos: "X div w < cols"
    using assms(4) wpos by (simp add: less_mult_imp_div_less mult.commute)
  have bx: "((j mod cols) * w \<le> X \<and> X < (j mod cols) * w + w) \<longleftrightarrow> X div w = j mod cols"
    by (rule box_div [OF wpos])
  have by': "((j div cols) * h \<le> Y \<and> Y < (j div cols) * h + h) \<longleftrightarrow> Y div h = j div cols"
    by (rule box_div [OF assms(5)])
  have idx: "(X div w = j mod cols \<and> Y div h = j div cols) \<longleftrightarrow> j = (Y div h) * cols + X div w"
    using cell_index [OF cpos, of j "Y div h"] by auto
  show ?thesis
  proof (cases "j = (Y div h) * cols + X div w")
    case True
    then have e: "X div w = j mod cols" "Y div h = j div cols" using idx by simp_all
    have in1: "(j mod cols) * w \<le> X" "X < (j mod cols) * w + w" using bx e by simp_all
    have in2: "(j div cols) * h \<le> Y" "Y < (j div cols) * h + h" using by' e by simp_all
    have "X - (j mod cols) * w = X mod w"
      using e(1) by (metis minus_div_mult_eq_mod)
    moreover have "Y - (j div cols) * h = Y mod h"
      using e(2) by (metis minus_div_mult_eq_mod)
    ultimately show ?thesis
      using True in1 in2 assms(1,2,3) by (simp add: paste_def)
  next
    case False
    then have "\<not> (X div w = j mod cols \<and> Y div h = j div cols)" using idx by simp
    then have "\<not> (((j mod cols) * w \<le> X \<and> X < (j mod cols) * w + w) \<and>
        ((j div cols) * h \<le> Y \<and> Y < (j div cols) * h + h))"
      using bx by' by simp
    then show ?thesis using False assms(1) by (auto simp: paste_def)
  qed
qed


lemma paste_frames_px:
  assumes "0 < cols" "\<forall>j \<in> set idxs. j < length (an_frames gif)"
    and "\<forall>f \<in> set (an_frames gif). im_size f = (w, h)"
  shows "\<exists>gif' sheet'. paste_frames (w, h) cols gif sheet idxs = Inr (gif', sheet')
      \<and> im_size sheet' = im_size sheet
      \<and> (\<forall>X Y. X < fst (im_size sheet) \<longrightarrow> Y < snd (im_size sheet) \<longrightarrow> X < w * cols \<longrightarrow> 0 < h \<longrightarrow>
            im_px sheet' (X, Y) =
              (if (Y div h) * cols + X div w \<in> set idxs
               then im_px (an_frames gif ! ((Y div h) * cols + X div w)) (X mod w, Y mod h)
               else im_px sheet (X, Y)))"
  using assms(2,3)
proof (induction idxs arbitrary: gif sheet)
  case Nil
  then show ?case by simp
next
  case (Cons j rest)
  define gif1 where "gif1 = gif\<lparr>an_pos := j\<rparr>"
  define sheet1 where "sheet1 = paste sheet (an_frames gif ! j) ((j mod cols) * w, (j div cols) * h)"
  have jlt: "j < length (an_frames gif)" using Cons.prems(1) by simp
  have fr: "an_frames gif1 = an_frames gif" by (simp add: gif1_def)
  have sz: "im_size (an_frames gif ! j) = (w, h)" using Cons.prems(2) jlt by simp
  have step: "paste_frames (w, h) cols gif sheet (j # rest) = paste_frames (w, h) cols gif1 sheet1 rest"
    using assms(1) jlt by (simp add: seek_def convert_RGBA_def gif1_def sheet1_def)
  have s1: "im_size sheet1 = im_size sheet" by (simp add: sheet1_def im_size_paste)
  obtain gif' sheet' where r: "paste_frames (w, h) cols gif1 sheet1 rest = Inr (gif', sheet')"
    and rs: "im_size sheet' = im_size sheet1"
    and rp: "\<And>X Y. X < fst (im_size sheet1) \<Longrightarrow> Y < snd (im_size sheet1) \<Longrightarrow> X < w * cols \<Longrightarrow> 0 < h \<Longrightarrow>
            im_px sheet' (X, Y) =
              (if (Y div h) * cols + X div w \<in> set rest
               then im_px (an_frames gif1 ! ((Y div h) * cols + X div w)) (X mod w, Y mod h)
               else im_px sheet1 (X, Y))"
    using Cons.IH [of gif1 sheet1] Cons.prems fr by auto
  have "im_px sheet' (X, Y) =
              (if (Y div h) * cols + X div w \<in> set (j # rest)
               then im_px (an_frames gif ! ((Y div h) * cols + X div w)) (X mod w, Y mod h)
               else im_px sheet (X, Y))"
    if a: "X < fst (im_size sheet)" "Y < snd (im_size sheet)" "X < w * cols" "0 < h" for X Y
  proof -
    have p1: "im_px sheet1 (X, Y) =
      (if j = (Y div h) * cols + X div w then im_px (an_frames gif ! j) (X mod w, Y mod h)
       else im_px sheet (X, Y))"
      unfolding sheet1_def by (rule im_px_paste_cell [OF sz a(1,2,3,4)])
    show ?thesis
      using rp [of X Y] a s1 p1 fr by auto
  qed
  then show ?case using step r rs s1 by auto
qed


lemma build_canvas_unfold:
  assumes "grid_layout (length (an_frames gif)) = Inr (cols, rows)"
  shows "\<exists>gif1. an_frames gif1 = an_frames gif \<and> build_canvas gif =
    (case Image_new (fst (an_size gif) * cols, snd (an_size gif) * rows) transparent of
       Inl e \<Rightarrow> Inl e
     | Inr spritesheet \<Rightarrow>
         (case paste_frames (an_size gif) cols gif1 spritesheet [0..<length (an_frames gif)] of
            Inl e \<Rightarrow> Inl e | Inr (gif2, spritesheet') \<Rightarrow> Inr spritesheet'))"
proof -
  obtain gif1 where c: "count_frames gif 0 = Inr (length (an_frames gif), gif1)"
    and f: "an_frames gif1 = an_frames gif"
    using count_frames_from [of 0 gif] by auto
  have "build_canvas gif =
    (case Image_new (fst (an_size gif) * cols, snd (an_size gif) * rows) transparent of
       Inl e \<Rightarrow> Inl e
     | Inr spritesheet \<Rightarrow>
         (case paste_frames (an_size gif) cols gif1 spritesheet [0..<length (an_frames gif)] of
            Inl e \<Rightarrow> Inl e | Inr (gif2, spritesheet') \<Rightarrow> Inr spritesheet'))"
    by (simp add: build_canvas_def c assms split_beta split: sum.split)
  with f show ?thesis by blast
qed

lemma build_canvas_empty:
  assumes "an_frames gif = []"
  shows "build_canvas gif = Inl ZeroDivisionError"
proof -
  obtain gif1 where c: "count_frames gif 0 = Inr (length (an_frames gif), gif1)"
    using count_frames_from [of 0 gif] by auto
  show ?thesis
    using c by (simp add: build_canvas_def assms grid_layout_zero split_beta)
qed

lemma build_canvas_overflow:
  assumes "grid_layout (length (an_frames gif)) = Inl e"
  shows "build_canvas gif = Inl e"
proof -
  obtain gif1 where c: "count_frames gif 0 = Inr (length (an_frames gif), gif1)"
    using count_frames_from [of 0 gif] by auto
  show ?thesis
    using c by (simp add: build_canvas_def assms split_beta)
qed

lemma build_canvas_memory:
  assumes "an_size gif = (w, h)" "grid_layout (length (an_frames gif)) = Inr (cols, rows)"
    and "max_pixels < (w * cols) * (h * rows)"
  shows "build_canvas gif = Inl MemoryError"
  using build_canvas_unfold [OF assms(2)] assms(1,3) by (auto simp: Image_new_def)

lemma build_canvas_px:
  assumes "an_size gif = (w, h)" "\<forall>f \<in> set (an_frames gif). im_size f = (w, h)"
    and "grid_layout (length (an_frames gif)) = Inr (cols, rows)" "0 < cols"
    and "(w * cols) * (h * rows) \<le> max_pixels"
  shows "\<exists>canvas. build_canvas gif = Inr canvas \<and> im_size canvas = (w * cols, h * rows)
     \<and> (\<forall>X Y. X < w * cols \<longrightarrow> Y < h * rows \<longrightarrow>
          im_px canvas (X, Y) =
            (if (Y div h) * cols + X div w < length (an_frames gif)
             then im_px (an_frames gif ! ((Y div h) * cols + X div w)) (X mod w, Y mod h)
             else transparent))"
proof -
  define sheet where "sheet = filled (w * cols, h * rows) transparent"
  have n: "Image_new (w * cols, h * rows) transparent = Inr sheet"
    using assms(5) by (simp add: Image_new_def sheet_def)
  obtain gif1 where f: "an_frames gif1 = an_frames gif"
    and b: "build_canvas gif =
      (case paste_frames (w, h) cols gif1 sheet [0..<length (an_frames gif)] of
         Inl e \<Rightarrow> Inl e | Inr (gif2, spritesheet') \<Rightarrow> Inr spritesheet')"
    using build_canvas_unfold [OF assms(3)] by (auto simp: assms(1) n)
  have ss: "im_size sheet = (w * cols, h * rows)" by (simp add: sheet_def filled_def)
  have sp: "im_px sheet P = transparent" for P by (simp add: sheet_def filled_def)
  have v: "\<forall>j \<in> set [0..<length (an_frames gif)]. j < length (an_frames gif1)" by (simp add: f)
  have u: "\<forall>f \<in> set (an_frames gif1). im_size f = (w, h)" using assms(2) f by simp
  obtain gif2 sheet' where r: "paste_frames (w, h) cols gif1 sheet [0..<length (an_frames gif)] = Inr (gif2, sheet')"
    and rs: "im_size sheet' = im_size sheet"
    and rp: "\<And>X Y. X < fst (im_size sheet) \<Longrightarrow> Y < snd (im_size sheet) \<Longrightarrow> X < w * cols \<Longrightarrow> 0 < h \<Longrightarrow>
            im_px sheet' (X, Y) =
              (if (Y div h) * cols + X div w \<in> set [0..<length (an_frames gif)]
               then im_px (an_frames gif1 ! ((Y div h) * cols + X div w)) (X mod w, Y mod h)
               else im_px sheet (X, Y))"
    using paste_frames_px [OF assms(4) v u, of sheet] by blast
  have "im_px sheet' (X, Y) =
            (if (Y div h) * cols + X div w < length (an_frames gif)
             then im_px (an_frames gif ! ((Y div h) * cols + X div w)) (X mod w, Y mod h)
             else transparent)" if a: "X < w * cols" "Y < h * rows" for X Y
  proof -
    have hpos: "0 < h" using a(2) by (cases h) simp_all
    show ?thesis using rp [of X Y] a hpos by (simp add: ss sp f)
  qed
  then show ?thesis using b r rs ss by simp
qed

lemma build_canvas_Inr_D:
  assumes "build_canvas gif = Inr canvas" "an_size gif = (w, h)"
  shows "\<exists>cols rows. grid_layout (length (an_frames gif)) = Inr (cols, rows) \<and> 0 < cols
      \<and> (w * cols) * (h * rows) \<le> max_pixels"
proof (cases "grid_layout (length (an_frames gif))")
  case (Inl e)
  then show ?thesis using build_canvas_overflow [OF Inl] assms(1) by simp
next
  case (Inr cr)
  obtain cols rows where cr: "cr = (cols, rows)" by (cases cr)
  have g: "grid_layout (length (an_frames gif)) = Inr (cols, rows)" using Inr cr by simp
  have c: "0 < cols" using grid_layout_Inr_D(2) [OF g] by simp
  have "(w * cols) * (h * rows) \<le> max_pixels"
  proof (rule ccontr)
    assume "\<not> (w * cols) * (h * rows) \<le> max_pixels"
    then have "build_canvas gif = Inl MemoryError"
      using build_canvas_memory [OF assms(2) g] by simp
    then show False using assms(1) by simp
  qed
  then show ?thesis using g c by blast
qed

section \<open>The canvas\<close>







text \<open>
  Claim C3, as amended. For every animation whose frames all have the size \<open>(w, h)\<close>
  read from the file: when the canvas is built and the layout is \<open>columns\<close> by \<open>rows\<close>,
  every canvas pixel that lies in a grid cell with index \<open>N\<close> or more (such cells exist
  when \<open>columns * rows > N\<close>) is \<open>(0, 0, 0, 0)\<close>, as the new canvas was: its alpha is 0.
\<close>

theorem unused_cells_transparent:
  assumes "an_size gif = (w, h)" "\<forall>f \<in> set (an_frames gif). im_size f = (w, h)"
    and "build_canvas gif = Inr canvas"
    and "grid_layout (length (an_frames gif)) = Inr (cols, rows)"
    and "X < w * cols" "Y < h * rows"
    and "length (an_frames gif) \<le> (Y div h) * cols + X div w"
  shows "getpixel canvas (X, Y) = Some (0, 0, 0, 0)
      \<and> getpixel canvas (X, Y) = getpixel (filled (w * cols, h * rows) transparent) (X, Y)
      \<and> map_option alpha (getpixel canvas (X, Y)) = Some 0"
proof -
  have cpos: "0 < cols" using assms(5) by (cases cols) simp_all
  obtain c r where g': "grid_layout (length (an_frames gif)) = Inr (c, r)"
    and fit': "(w * c) * (h * r) \<le> max_pixels"
    using build_canvas_Inr_D [OF assms(3,1)] by blast
  have fit: "(w * cols) * (h * rows) \<le> max_pixels" using g' fit' assms(4) by simp
  obtain canvas' where b: "build_canvas gif = Inr canvas'"
    and sz: "im_size canvas' = (w * cols, h * rows)"
    and px: "\<And>X Y. X < w * cols \<Longrightarrow> Y < h * rows \<Longrightarrow>
          im_px canvas' (X, Y) =
            (if (Y div h) * cols + X div w < length (an_frames gif)
             then im_px (an_frames gif ! ((Y div h) * cols + X div w)) (X mod w, Y mod h)
             else transparent)"
    using build_canvas_px [OF assms(1,2,4) cpos fit] by blast
  have e: "canvas' = canvas" using b assms(3) by simp
  have "getpixel canvas (X, Y) = Some transparent"
    using px [OF assms(5,6)] assms(5,6,7) by (simp add: getpixel_def sz e [symmetric])
  then show ?thesis
    using assms(5,6) by (simp add: transparent_def alpha_def getpixel_def filled_def)
qed

theorem unused_cells_transparent_witness:
  "grid_layout 3 = Inr (2, 2)
   \<and> (\<exists>canvas. build_canvas \<lparr>an_size = (1, 1),
          an_frames = replicate 3 (filled (1, 1) (255, 0, 0, 255)), an_pos = 0\<rparr> = Inr canvas
        \<and> getpixel canvas (1, 1) = Some (0, 0, 0, 0))"
proof -
  define gif where "gif = \<lparr>an_size = (1, 1),
          an_frames = replicate 3 (filled (1, 1) (255, 0, 0, 255)), an_pos = 0\<rparr>"
  have l: "grid_layout 3 = Inr (2, 2)" by (rule grid_layout_eval) simp_all
  have s: "an_size gif = (1, 1)" by (simp add: gif_def)
  have u: "\<forall>f \<in> set (an_frames gif). im_size f = (1, 1)" by (simp add: gif_def filled_def)
  have lg: "grid_layout (length (an_frames gif)) = Inr (2, 2)" by (simp add: gif_def l)
  obtain canvas where b: "build_canvas gif = Inr canvas"
    using build_canvas_px [OF s u lg] by (auto simp: max_pixels_def)
  have "getpixel canvas (1, 1) = Some (0, 0, 0, 0)"
    using unused_cells_transparent [OF s u b lg, of 1 1] by (simp add: gif_def)
  then show ?thesis using l b unfolding gif_def by blast
qed

text \<open>
  Claim C3 as stated, for every animation, fails when a frame is larger than the size
  read from the file: with frames of sizes 1 by 1, 1 by 1 and 2 by 1 and the size
  \<open>(1, 1)\<close>, the layout is 2 by 2, the third frame is pasted at \<open>(0, 1)\<close> and covers
  the pixel \<open>(1, 1)\<close> of the unused cell 3.
\<close>

theorem unused_cells_counterexample:
  "grid_layout (length [filled (1, 1) (255, 0, 0, 255), filled (1, 1) (255, 0, 0, 255),
        filled (2, 1) (255, 0, 0, 255)]) = Inr (2, 2)
   \<and> (\<exists>canvas. build_canvas \<lparr>an_size = (1, 1),
          an_frames = [filled (1, 1) (255, 0, 0, 255), filled (1, 1) (255, 0, 0, 255),
            filled (2, 1) (255, 0, 0, 255)], an_pos = 0\<rparr> = Inr canvas
        \<and> getpixel canvas (1, 1) = Some (255, 0, 0, 255)
        \<and> (3::nat) \<le> (1 div 1) * 2 + 1 div 1)"
proof -
  define gif where "gif = \<lparr>an_size = (1, 1),
          an_frames = [filled (1, 1) (255, 0, 0, 255), filled (1, 1) (255, 0, 0, 255),
            filled (2, 1) (255, 0, 0, 255)], an_pos = 0\<rparr>"
  have l: "grid_layout 3 = Inr (2, 2)" by (rule grid_layout_eval) simp_all
  have n3: "length (an_frames gif) = 3" by (simp add: gif_def)
  have lg: "grid_layout (length (an_frames gif)) = Inr (2, 2)" by (simp only: n3 l)
  have u3: "[0..<3] = [0, 1, 2::nat]" by (simp add: upt_rec)
  obtain gif1 where f: "an_frames gif1 = an_frames gif"
    and b: "build_canvas gif =
      (case Image_new (fst (an_size gif) * 2, snd (an_size gif) * 2) transparent of
         Inl e \<Rightarrow> Inl e
       | Inr spritesheet \<Rightarrow>
           (case paste_frames (an_size gif) 2 gif1 spritesheet [0..<length (an_frames gif)] of
              Inl e \<Rightarrow> Inl e | Inr (gif2, spritesheet') \<Rightarrow> Inr spritesheet'))"
    using build_canvas_unfold [OF lg] by blast
  have n: "Image_new (fst (an_size gif) * 2, snd (an_size gif) * 2) transparent
      = Inr (filled (2, 2) transparent)"
    by (simp add: Image_new_def max_pixels_def gif_def)
  have fr: "an_frames gif1 = [filled (1, 1) (255, 0, 0, 255), filled (1, 1) (255, 0, 0, 255),
            filled (2, 1) (255, 0, 0, 255)]" using f by (simp add: gif_def)
  have p: "paste_frames (1, 1) 2 gif1 (filled (2, 2) transparent) [0, 1, 2]
      = Inr (gif1\<lparr>an_pos := 2\<rparr>,
          paste (paste (paste (filled (2, 2) transparent) (filled (1, 1) (255, 0, 0, 255)) (0, 0))
            (filled (1, 1) (255, 0, 0, 255)) (1, 0)) (filled (2, 1) (255, 0, 0, 255)) (0, 1))"
    by (simp add: seek_def convert_RGBA_def fr Let_def)
  have "getpixel (paste (paste (paste (filled (2, 2) transparent) (filled (1, 1) (255, 0, 0, 255)) (0, 0))
            (filled (1, 1) (255, 0, 0, 255)) (1, 0)) (filled (2, 1) (255, 0, 0, 255)) (0, 1)) (1, 1)
      = Some (255, 0, 0, 255)"
    by (simp add: paste_def filled_def getpixel_def)
  then obtain g c where pc: "paste_frames (1, 1) 2 gif1 (filled (2, 2) transparent) [0, 1, 2] = Inr (g, c)"
    and gp: "getpixel c (1, 1) = Some (255, 0, 0, 255)"
    using p by simp
  have sz: "an_size gif = (1, 1)" by (simp add: gif_def)
  have b1: "build_canvas gif =
      (case paste_frames (an_size gif) 2 gif1 (filled (2, 2) transparent) [0..<length (an_frames gif)] of
         Inl e \<Rightarrow> Inl e | Inr (gif2, spritesheet') \<Rightarrow> Inr spritesheet')"
    by (simp only: b n sum.case)
  have "build_canvas gif = Inr c"
    by (simp only: b1 sz n3 u3 pc sum.case prod.case)
  then have "\<exists>c. build_canvas gif = Inr c \<and> getpixel c (1, 1) = Some (255, 0, 0, 255)"
    using gp by blast
  moreover have "grid_layout (length (an_frames gif)) = Inr (2, 2)" by (rule lg)
  ultimately show ?thesis unfolding gif_def by simp
qed

text \<open>
  Claim C4, as amended. With a frame count of 0 the column count is 0 and the row
  computation, a division by that 0, raises \<^verbatim>\<open>ZeroDivisionError\<close>: the layout is an error,
  and a source without frames makes the builder fail with it before a canvas is made.
\<close>

theorem zero_frames_layout:
  "float_of_nat 0 = Inr 0 \<and> nat (math_ceil (math_sqrt 0)) = 0
   \<and> true_div 0 0 = Inl ZeroDivisionError
   \<and> grid_layout 0 = Inl ZeroDivisionError
   \<and> build_canvas \<lparr>an_size = sz, an_frames = [], an_pos = pos\<rparr> = Inl ZeroDivisionError"
  by (simp add: grid_layout_zero build_canvas_empty float_of_nat_def to_double_def math_sqrt_def
      math_ceil_def true_div_def)

text \<open>
  Claim C4 as stated fails: the layout of 0 frames is not \<open>(0, 0)\<close>.
\<close>

theorem zero_frames_layout_counterexample: "grid_layout 0 \<noteq> Inr (0, 0)"
  by (simp add: grid_layout_zero)

section \<open>The builder on files\<close>









lemma dirname_bare:
  assumes "CHR ''/'' \<notin> set p"
  shows "dirname p = []"
proof -
  have "dropWhile (\<lambda>c. c \<noteq> CHR ''/'') (rev p) = []"
    using assms by (auto simp: dropWhile_eq_Nil_conv)
  then show ?thesis by (simp add: dirname_def)
qed

lemma empty_path_missing: "\<not> path_exists w []"
  by (simp add: path_exists_def isdir_def isfile_def)

text \<open>
  Claim C10. When the source path is a bare file name (no directory part) that opens
  as an image and no output directory is given, \<^verbatim>\<open>os.path.dirname\<close> yields the empty
  string, which does not exist, and \<^verbatim>\<open>os.makedirs\<close> of it raises: the builder ends in
  that error and writes nothing.
\<close>

theorem bare_filename_fails:
  assumes "CHR ''/'' \<notin> set gif_path" "Image_open w gif_path = Inr gif"
  shows "dirname gif_path = [] \<and> \<not> path_exists w [] \<and> makedirs w [] = Inl (FileNotFoundError [])
     \<and> convert_gif_to_spritesheet w gif_path None = (Inl (FileNotFoundError []), w)"
  using assms
  by (simp add: convert_gif_to_spritesheet_def dirname_bare empty_path_missing makedirs_def)

theorem bare_filename_fails_witness:
  "convert_gif_to_spritesheet
     \<lparr>w_dirs = {}, w_files = [''a.gif'' \<mapsto> Image_data (1, 1) [filled (1, 1) (255, 0, 0, 255)]],
      w_listing = (\<lambda>d. []), w_stdout = []\<rparr> ''a.gif'' None
   = (Inl (FileNotFoundError []),
     \<lparr>w_dirs = {}, w_files = [''a.gif'' \<mapsto> Image_data (1, 1) [filled (1, 1) (255, 0, 0, 255)]],
      w_listing = (\<lambda>d. []), w_stdout = []\<rparr>)"
proof -
  have "Image_open \<lparr>w_dirs = {}, w_files = [''a.gif'' \<mapsto> Image_data (1, 1) [filled (1, 1) (255, 0, 0, 255)]],
      w_listing = (\<lambda>d. []), w_stdout = []\<rparr> ''a.gif''
    = Inr \<lparr>an_size = (1, 1), an_frames = [filled (1, 1) (255, 0, 0, 255)], an_pos = 0\<rparr>"
    by (simp add: Image_open_def)
  from bare_filename_fails [OF _ this] show ?thesis by simp
qed

section \<open>Paths\<close>

lemma basename_no_slash: "CHR ''/'' \<notin> set (basename p)"
proof -
  have "c \<noteq> CHR ''/''" if "c \<in> set (takeWhile (\<lambda>c. c \<noteq> CHR ''/'') (rev p))" for c
    using set_takeWhileD [OF that] by simp
  then show ?thesis by (auto simp: basename_def)
qed

lemma basename_bare:
  assumes "CHR ''/'' \<notin> set b"
  shows "basename b = b"
proof -
  have t: "takeWhile (\<lambda>c. c \<noteq> CHR ''/'') (rev b) = rev b"
    using assms by (auto simp: takeWhile_eq_all_conv)
  show ?thesis by (simp only: basename_def t rev_rev_ident)
qed

lemma basename_append_slash:
  assumes "CHR ''/'' \<notin> set b"
  shows "basename (a @ ''/'' @ b) = b"
proof -
  have t: "takeWhile (\<lambda>c. c \<noteq> CHR ''/'') (rev b @ CHR ''/'' # rev a) = rev b"
    using assms by (auto simp: takeWhile_tail)
  have "rev (a @ ''/'' @ b) = rev b @ CHR ''/'' # rev a" by simp
  then show ?thesis by (simp only: basename_def t rev_rev_ident)
qed

lemma basename_join:
  assumes "CHR ''/'' \<notin> set b" "b \<noteq> []"
  shows "basename (join a b) = b"
proof -
  have hb: "hd b \<noteq> CHR ''/''" using assms by (cases b) auto
  show ?thesis
  proof (cases "a = []")
    case True
    then show ?thesis using assms hb by (simp add: join_def basename_bare)
  next
    case False
    show ?thesis
    proof (cases "last a = CHR ''/''")
      case True
      then obtain a' where "a = a' @ ''/''" using False by (metis append_butlast_last_id)
      then have "join a b = a' @ ''/'' @ b" using hb assms(2) by (simp add: join_def)
      then show ?thesis by (simp only: basename_append_slash [OF assms(1)])
    next
      case l: False
      then have "join a b = a @ ''/'' @ b" using hb assms(2) False by (simp add: join_def)
      then show ?thesis by (simp only: basename_append_slash [OF assms(1)])
    qed
  qed
qed

lemma splitext_parts: "fst (splitext b) @ snd (splitext b) = b"
proof -
  define ext where "ext = rev (takeWhile (\<lambda>c. c \<noteq> CHR ''.'') (rev b))"
  have "CHR ''.'' \<in> set b \<Longrightarrow> take (length b - length ext - 1) b @ CHR ''.'' # ext = b"
  proof -
    assume d: "CHR ''.'' \<in> set b"
    have ne: "dropWhile (\<lambda>c. c \<noteq> CHR ''.'') (rev b) \<noteq> []"
    proof
      assume "dropWhile (\<lambda>c. c \<noteq> CHR ''.'') (rev b) = []"
      then have "\<forall>c \<in> set (rev b). c \<noteq> CHR ''.''" by (simp only: dropWhile_eq_Nil_conv)
      then show False using d by auto
    qed
    then obtain c t where dw0: "dropWhile (\<lambda>c. c \<noteq> CHR ''.'') (rev b) = c # t"
      by (cases "dropWhile (\<lambda>c. c \<noteq> CHR ''.'') (rev b)") simp_all
    have "\<not> hd (dropWhile (\<lambda>c. c \<noteq> CHR ''.'') (rev b)) \<noteq> CHR ''.''"
      by (rule hd_dropWhile [OF ne])
    then have "c = CHR ''.''" by (simp only: dw0 list.sel) simp
    then have dw: "dropWhile (\<lambda>c. c \<noteq> CHR ''.'') (rev b) = CHR ''.'' # t" using dw0 by simp
    have "takeWhile (\<lambda>c. c \<noteq> CHR ''.'') (rev b) @ dropWhile (\<lambda>c. c \<noteq> CHR ''.'') (rev b) = rev b"
      by (rule takeWhile_dropWhile_id)
    then have e: "rev ext @ CHR ''.'' # t = rev b" by (simp only: dw ext_def rev_rev_ident)
    have "b = rev (rev b)" by simp
    also have "\<dots> = rev (rev ext @ CHR ''.'' # t)" by (simp only: e)
    also have "\<dots> = rev t @ CHR ''.'' # ext" by simp
    finally have b: "b = rev t @ CHR ''.'' # ext" .
    then have "length b - length ext - 1 = length t" by simp
    then show ?thesis using b by simp
  qed
  then show ?thesis by (simp add: splitext_def Let_def ext_def)
qed

lemma splitext_ext: "snd (splitext b) = [] \<or> hd (snd (splitext b)) = CHR ''.''"
  by (simp add: splitext_def Let_def)

lemma splitext_no_slash:
  assumes "CHR ''/'' \<notin> set b"
  shows "CHR ''/'' \<notin> set (fst (splitext b))"
proof -
  have "set (fst (splitext b)) \<subseteq> set b"
    by (metis splitext_parts set_append Un_upper1)
  then show ?thesis using assms by blast
qed

lemma output_name_differs:
  "basename p \<noteq> fst (splitext (basename p)) @ ''_spritesheet.png''"
proof
  assume a: "basename p = fst (splitext (basename p)) @ ''_spritesheet.png''"
  have "fst (splitext (basename p)) @ snd (splitext (basename p)) = fst (splitext (basename p)) @ ''_spritesheet.png''"
    using a by (simp only: splitext_parts)
  then have "snd (splitext (basename p)) = ''_spritesheet.png''" by simp
  then show False using splitext_ext [of "basename p"] by simp
qed

lemma output_path_differs:
  "join od (fst (splitext (basename p)) @ ''_spritesheet.png'') \<noteq> p"
proof
  assume a: "join od (fst (splitext (basename p)) @ ''_spritesheet.png'') = p"
  have ns: "CHR ''/'' \<notin> set (fst (splitext (basename p)) @ ''_spritesheet.png'')"
    using splitext_no_slash [OF basename_no_slash [of p]] by simp
  have "basename (join od (fst (splitext (basename p)) @ ''_spritesheet.png''))
      = fst (splitext (basename p)) @ ''_spritesheet.png''"
    by (rule basename_join [OF ns]) simp
  then show False using a output_name_differs [of p] by simp
qed

section \<open>One run of the builder\<close>

lemma convert_success_iff:
  "convert_gif_to_spritesheet w p out = (Inr path, w1) \<longleftrightarrow>
   (\<exists>gif canvas w' w2.
      Image_open w p = Inr gif
    \<and> (if \<not> path_exists w (case out of None \<Rightarrow> dirname p | Some d \<Rightarrow> d)
        then makedirs w (case out of None \<Rightarrow> dirname p | Some d \<Rightarrow> d) else Inr w) = Inr w'
    \<and> build_canvas gif = Inr canvas
    \<and> path = join (case out of None \<Rightarrow> dirname p | Some d \<Rightarrow> d)
               (fst (splitext (basename p)) @ ''_spritesheet.png'')
    \<and> Image_save w' canvas path = Inr w2
    \<and> w1 = print w2 (''Created spritesheet: '' @ path))"
  unfolding convert_gif_to_spritesheet_def Let_def
  by (auto split: sum.splits)

lemma makedirs_Inr:
  assumes "makedirs w p = Inr w'"
  shows "p \<noteq> []" "dir_key p \<in> w_dirs w'" "w_files w' = w_files w" "w_listing w' = w_listing w"
    "w_stdout w' = w_stdout w" "w_dirs w \<subseteq> w_dirs w'"
  using assms by (auto simp: makedirs_def split: if_splits option.splits)

lemma below_file_cong:
  assumes "\<forall>a \<in> set (butlast xs). isfile w' a = isfile w a"
  shows "below_file w' xs = below_file w xs"
  using assms by (induction w xs rule: below_file.induct) auto

lemma length_dir_key_take:
  assumes "1 \<le> i" "i < length p"
  shows "length (dir_key (take i p)) < length p"
proof -
  have "length (rstrip_slash (take i p)) \<le> length (take i p)"
    unfolding rstrip_slash_def by (simp add: length_dropWhile_le [THEN order_trans])
  then have "length (dir_key (take i p)) \<le> i"
    using assms by (auto simp: dir_key_def Let_def)
  then show ?thesis using assms(2) by linarith
qed

lemma parents_shorter:
  assumes "a \<in> set (parents p)"
  shows "a \<noteq> p"
proof -
  obtain i where "1 \<le> i" "i < length p" "a = dir_key (take i p)"
    using assms by (auto simp: parents_def)
  then have "length a < length p" using length_dir_key_take by blast
  then show ?thesis by auto
qed

lemma Image_save_Inr:
  assumes "Image_save w img p = Inr w'"
  shows "\<not> isdir w p" "dirname p = [] \<or> isdir w (dirname p)"
    "w_files w' = (w_files w)(p \<mapsto> Image_data (im_size img) [img])"
    "w_dirs w' = w_dirs w" "w_stdout w' = w_stdout w"
    "basename p \<in> set (w_listing w' (dir_key (dirname p)))"
    "\<And>k. k \<noteq> dir_key (dirname p) \<Longrightarrow> w_listing w' k = w_listing w k"
    "below_file w (parents p @ [p]) = None"
  using assms by (auto simp: Image_save_def split: if_splits)

lemma Image_save_again:
  assumes "\<not> isdir w p" "dirname p = [] \<or> isdir w (dirname p)"
    and "w_files w p = Some (Image_data (im_size img) [img])"
    and "basename p \<in> set (w_listing w (dir_key (dirname p)))"
    and "below_file w (parents p @ [p]) = None"
  shows "Image_save w img p = Inr w"
proof -
  have "(w_files w)(p \<mapsto> Image_data (im_size img) [img]) = w_files w"
    using assms(3) by (simp add: fun_upd_idem)
  then show ?thesis using assms(1,2,4,5) by (auto simp: Image_save_def)
qed

lemma isdir_cong: "w_dirs w' = w_dirs w \<Longrightarrow> isdir w' p = isdir w p"
  by (simp add: isdir_def)

lemma Image_open_cong:
  assumes "Image_open w p = Inr gif" "w_files w' p = w_files w p"
  shows "Image_open w' p = Inr gif"
  using assms by (auto simp: Image_open_def split: if_splits option.splits file_data.splits)

lemma convert_again:
  assumes "convert_gif_to_spritesheet w p out = (Inr path, w1)"
  shows "convert_gif_to_spritesheet w1 p out = (Inr path, print w1 (''Created spritesheet: '' @ path))"
proof -
  define od where "od = (case out of None \<Rightarrow> dirname p | Some d \<Rightarrow> d)"
  obtain gif canvas w' w2 where o: "Image_open w p = Inr gif"
    and m: "(if \<not> path_exists w od then makedirs w od else Inr w) = Inr w'"
    and b: "build_canvas gif = Inr canvas"
    and pa: "path = join od (fst (splitext (basename p)) @ ''_spritesheet.png'')"
    and s: "Image_save w' canvas path = Inr w2"
    and w1: "w1 = print w2 (''Created spritesheet: '' @ path)"
    using assms unfolding convert_success_iff od_def by blast
  note sv = Image_save_Inr [OF s]
  have f': "w_files w' = w_files w" and d': "w_dirs w \<subseteq> w_dirs w'"
    using m makedirs_Inr(3,6) [of w od w'] by (auto split: if_splits)
  have d1: "w_dirs w1 = w_dirs w'" by (simp add: w1 print_def sv(4))
  have f1: "w_files w1 = (w_files w)(path \<mapsto> Image_data (im_size canvas) [canvas])"
    by (simp add: w1 print_def sv(3) f')
  have ne: "path \<noteq> p" unfolding pa by (rule output_path_differs)
  have o1: "Image_open w1 p = Inr gif"
    by (rule Image_open_cong [OF o]) (use ne in \<open>simp add: f1\<close>)
  have e1: "path_exists w1 od"
  proof (cases "path_exists w od")
    case True
    then show ?thesis using d' d1 by (auto simp: path_exists_def isdir_def isfile_def f1)
  next
    case False
    then have "makedirs w od = Inr w'" using m by simp
    then show ?thesis using makedirs_Inr(1,2) [of w od w'] d1 by (simp add: path_exists_def isdir_def)
  qed
  have l1: "w_listing w1 = w_listing w2" by (simp add: w1 print_def)
  have s1: "Image_save w1 canvas path = Inr w1"
  proof (rule Image_save_again)
    show "\<not> isdir w1 path" using sv(1) by (simp add: isdir_cong [OF d1])
    show "dirname path = [] \<or> isdir w1 (dirname path)" using sv(2) by (simp add: isdir_cong [OF d1])
    show "w_files w1 path = Some (Image_data (im_size canvas) [canvas])" by (simp add: f1)
    show "basename path \<in> set (w_listing w1 (dir_key (dirname path)))" using sv(6) by (simp add: l1)
    have "\<forall>a \<in> set (butlast (parents path @ [path])). isfile w1 a = isfile w' a"
      using parents_shorter [of _ path] by (auto simp: isfile_def f1 f')
    then show "below_file w1 (parents path @ [path]) = None"
      using sv(8) by (simp only: below_file_cong)
  qed
  show ?thesis
    unfolding convert_success_iff
    using o1 e1 b pa s1 by (auto simp: od_def)
qed

lemma build_canvas_single:
  "\<exists>canvas. build_canvas \<lparr>an_size = (1, 1), an_frames = [filled (1, 1) c], an_pos = 0\<rparr> = Inr canvas"
proof -
  define gif where "gif = \<lparr>an_size = (1, 1), an_frames = [filled (1, 1) c], an_pos = 0\<rparr>"
  have "grid_layout 1 = Inr (1, 1)" by (rule grid_layout_eval) simp_all
  then have l: "grid_layout (length (an_frames gif)) = Inr (1, 1)" by (simp add: gif_def)
  have s: "an_size gif = (1, 1)" by (simp add: gif_def)
  have u: "\<forall>f \<in> set (an_frames gif). im_size f = (1, 1)" by (simp add: gif_def filled_def)
  have "\<exists>canvas. build_canvas gif = Inr canvas"
    using build_canvas_px [OF s u l] by (auto simp: max_pixels_def)
  then show ?thesis by (simp only: gif_def)
qed

text \<open>
  Claim C8. When a run of the builder succeeds and has written its output, a second run
  on the same input with the same output directory succeeds as well, returns the same
  path \<open>{base name without extension}_spritesheet.png\<close> in the resolved output
  directory, and leaves every file, directory and listing as the first run left it:
  the file at that path is overwritten, without any error, by the same encoded canvas.
\<close>

theorem rerun_identical:
  assumes "convert_gif_to_spritesheet w gif_path output_dir = (Inr output_path, w1)"
  shows "\<exists>w2. convert_gif_to_spritesheet w1 gif_path output_dir = (Inr output_path, w2)
     \<and> w_files w2 = w_files w1 \<and> w_dirs w2 = w_dirs w1 \<and> w_listing w2 = w_listing w1
     \<and> output_path = join (case output_dir of None \<Rightarrow> dirname gif_path | Some d \<Rightarrow> d)
                        (fst (splitext (basename gif_path)) @ ''_spritesheet.png'')
     \<and> (\<exists>canvas. w_files w1 output_path = Some (Image_data (im_size canvas) [canvas]))"
proof -
  obtain gif canvas w' w2 where
        pa: "output_path = join (case output_dir of None \<Rightarrow> dirname gif_path | Some d \<Rightarrow> d)
               (fst (splitext (basename gif_path)) @ ''_spritesheet.png'')"
    and s: "Image_save w' canvas output_path = Inr w2"
    and w1: "w1 = print w2 (''Created spritesheet: '' @ output_path)"
    using assms unfolding convert_success_iff by blast
  have "w_files w1 output_path = Some (Image_data (im_size canvas) [canvas])"
    by (simp add: w1 print_def Image_save_Inr(3) [OF s])
  then show ?thesis
    using convert_again [OF assms] pa by (auto simp: print_def)
qed

theorem rerun_identical_witness:
  "\<exists>w1 w2.
     convert_gif_to_spritesheet
       \<lparr>w_dirs = {''in''},
        w_files = [''in/a.gif'' \<mapsto> Image_data (1, 1) [filled (1, 1) (255, 0, 0, 255)]],
        w_listing = (\<lambda>d. [])(''in'' := [''a.gif'']), w_stdout = []\<rparr>
       ''in/a.gif'' None = (Inr ''in/a_spritesheet.png'', w1)
   \<and> convert_gif_to_spritesheet w1 ''in/a.gif'' None = (Inr ''in/a_spritesheet.png'', w2)
   \<and> w_files w2 = w_files w1"
proof -
  define w where "w = \<lparr>w_dirs = {''in''},
        w_files = [''in/a.gif'' \<mapsto> Image_data (1, 1) [filled (1, 1) (255, 0, 0, 255)]],
        w_listing = (\<lambda>d. [])(''in'' := [''a.gif'']), w_stdout = ([] :: string list)\<rparr>"
  obtain canvas where b: "build_canvas \<lparr>an_size = (1, 1),
      an_frames = [filled (1, 1) (255, 0, 0, 255)], an_pos = 0\<rparr> = Inr canvas"
    using build_canvas_single by blast
  have o: "Image_open w ''in/a.gif'' = Inr \<lparr>an_size = (1, 1),
      an_frames = [filled (1, 1) (255, 0, 0, 255)], an_pos = 0\<rparr>"
    by (simp add: Image_open_def w_def)
  have d: "dirname ''in/a.gif'' = ''in''" by (simp add: dirname_def rstrip_slash_def)
  have e: "path_exists w ''in''"
    by (simp add: path_exists_def isdir_def dir_key_def rstrip_slash_def w_def)
  have n: "fst (splitext (basename ''in/a.gif'')) = ''a''"
    by (simp add: basename_def splitext_def)
  have j: "join ''in'' ''a_spritesheet.png'' = ''in/a_spritesheet.png''"
    by (simp add: join_def)
  have "\<exists>w2. Image_save w canvas ''in/a_spritesheet.png'' = Inr w2"
    by (simp add: Image_save_def isdir_def isfile_def dir_key_def rstrip_slash_def dirname_def
        parents_def upt_rec w_def)
  then obtain w2 where s: "Image_save w canvas ''in/a_spritesheet.png'' = Inr w2" by blast
  have c1: "convert_gif_to_spritesheet w ''in/a.gif'' None
      = (Inr ''in/a_spritesheet.png'', print w2 (''Created spritesheet: '' @ ''in/a_spritesheet.png''))"
    unfolding convert_success_iff using o b s by (simp add: d e n j)
  from rerun_identical [OF c1] obtain w3 where
    "convert_gif_to_spritesheet (print w2 (''Created spritesheet: '' @ ''in/a_spritesheet.png''))
       ''in/a.gif'' None = (Inr ''in/a_spritesheet.png'', w3)"
    "w_files w3 = w_files (print w2 (''Created spritesheet: '' @ ''in/a_spritesheet.png''))"
    by blast
  then have "\<exists>w1 w2. convert_gif_to_spritesheet w ''in/a.gif'' None = (Inr ''in/a_spritesheet.png'', w1)
      \<and> convert_gif_to_spritesheet w1 ''in/a.gif'' None = (Inr ''in/a_spritesheet.png'', w2)
      \<and> w_files w2 = w_files w1"
    using c1 by blast
  then show ?thesis unfolding w_def .
qed

section \<open>The batch\<close>

lemma convert_stdout:
  assumes "convert_gif_to_spritesheet w p out = (r, w1)"
  shows "w_stdout w1 = w_stdout w @ (case r of Inr path \<Rightarrow> [''Created spritesheet: '' @ path] | Inl e \<Rightarrow> [])"
proof (cases r)
  case (Inr path)
  have "convert_gif_to_spritesheet w p out = (Inr path, w1)" using assms Inr by simp
  then obtain w' w2 canvas where
    m: "(if \<not> path_exists w (case out of None \<Rightarrow> dirname p | Some d \<Rightarrow> d)
        then makedirs w (case out of None \<Rightarrow> dirname p | Some d \<Rightarrow> d) else Inr w) = Inr w'"
    and s: "Image_save w' canvas path = Inr w2"
    and w1: "w1 = print w2 (''Created spritesheet: '' @ path)"
    unfolding convert_success_iff by blast
  have "w_stdout w' = w_stdout w" using m makedirs_Inr(5) by (auto split: if_splits)
  then show ?thesis by (simp add: Inr w1 print_def Image_save_Inr(5) [OF s])
next
  case (Inl e)
  have "w_stdout w1 = w_stdout w"
    using assms makedirs_Inr(5) unfolding convert_gif_to_spritesheet_def Let_def Inl
    by (auto split: sum.splits if_splits)
  then show ?thesis by (simp add: Inl)
qed

lemma process_files_fail:
  assumes "endswith (lower f) ''.gif''"
    and "convert_gif_to_spritesheet w (join d f) out = (Inl e, w')"
  shows "process_files d out (f # rest) (k, w) =
    process_files d out rest (k, print w' (''Error processing '' @ f @ '': '' @ str_error e))"
  using assms by simp

lemma process_files_success:
  assumes "endswith (lower f) ''.gif''"
    and "convert_gif_to_spritesheet w (join d f) out = (Inr path, w')"
  shows "process_files d out (f # rest) (k, w) = process_files d out rest (k + 1, w')"
  using assms by simp

lemma process_files_skip:
  assumes "\<not> endswith (lower f) ''.gif''"
  shows "process_files d out (f # rest) (k, w) = process_files d out rest (k, w)"
  using assms by simp

lemma process_files_report:
  assumes "process_files d out names (k, w) = (k', w')"
  shows "\<exists>lines. w_stdout w' = w_stdout w @ lines
     \<and> length lines = length (filter (\<lambda>f. endswith (lower f) ''.gif'') names)
     \<and> k' = k + length (filter (\<lambda>l. take 21 l = ''Created spritesheet: '') lines)
     \<and> (\<forall>l \<in> set lines. take 21 l = ''Created spritesheet: ''
           \<or> (\<exists>f \<in> set names. \<exists>e. l = ''Error processing '' @ f @ '': '' @ str_error e))"
  using assms
proof (induction names arbitrary: k w)
  case Nil
  then show ?case by simp
next
  case (Cons f rest)
  show ?case
  proof (cases "endswith (lower f) ''.gif''")
    case False
    then have "process_files d out rest (k, w) = (k', w')" using Cons.prems by simp
    from Cons.IH [OF this] show ?thesis using False by auto
  next
    case True
    obtain r w1 where c: "convert_gif_to_spritesheet w (join d f) out = (r, w1)"
      by (cases "convert_gif_to_spritesheet w (join d f) out")
    note so = convert_stdout [OF c]
    show ?thesis
    proof (cases r)
      case (Inr path)
      then have "process_files d out rest (k + 1, w1) = (k', w')"
        using Cons.prems True c by simp
      from Cons.IH [OF this] obtain lines where
        l: "w_stdout w' = w_stdout w1 @ lines"
        "length lines = length (filter (\<lambda>f. endswith (lower f) ''.gif'') rest)"
        "k' = k + 1 + length (filter (\<lambda>l. take 21 l = ''Created spritesheet: '') lines)"
        "\<forall>l \<in> set lines. take 21 l = ''Created spritesheet: ''
           \<or> (\<exists>f \<in> set rest. \<exists>e. l = ''Error processing '' @ f @ '': '' @ str_error e)"
        by blast
      show ?thesis
        by (rule exI [of _ "(''Created spritesheet: '' @ path) # lines"])
           (use l so Inr True in auto)
    next
      case (Inl e)
      then have "process_files d out rest
          (k, print w1 (''Error processing '' @ f @ '': '' @ str_error e)) = (k', w')"
        using Cons.prems True c by simp
      from Cons.IH [OF this] obtain lines where
        l: "w_stdout w' = w_stdout (print w1 (''Error processing '' @ f @ '': '' @ str_error e)) @ lines"
        "length lines = length (filter (\<lambda>f. endswith (lower f) ''.gif'') rest)"
        "k' = k + length (filter (\<lambda>l. take 21 l = ''Created spritesheet: '') lines)"
        "\<forall>l \<in> set lines. take 21 l = ''Created spritesheet: ''
           \<or> (\<exists>f \<in> set rest. \<exists>e. l = ''Error processing '' @ f @ '': '' @ str_error e)"
        by blast
      show ?thesis
        by (rule exI [of _ "(''Error processing '' @ f @ '': '' @ str_error e) # lines"])
           (use l so Inl True in \<open>auto simp: print_def\<close>)
    qed
  qed
qed








end
